theory Spec2Isabelle
  imports Complex_Main "HOL-Library.Word" "HOL-Library.Multiset" "HOL-Library.Sublist"
begin

unbundle bit_operations_syntax

section \<open>Machine types and errors\<close>

text \<open>
  The C++ sources use \<^verbatim>\<open>uint8_t\<close> for encoded bytes, \<^verbatim>\<open>int\<close> (32 bits, two's
  complement) for document identifiers, frequencies and VByte values, \<^verbatim>\<open>uint32_t\<close> for
  Unicode code points and for the length fields of the index file, and \<^verbatim>\<open>size_t\<close> for
  offsets into vectors. Bytes and 32-bit integers are words; a signed \<^verbatim>\<open>int\<close> is a
  \<open>32 word\<close> that is compared with the signed orders \<open>\<le>s\<close> and \<open><s\<close> and read with
  \<open>sint\<close>. Offsets never leave the range of a vector's size and are natural numbers.
\<close>

type_synonym byte = "8 word"
type_synonym cint = "32 word"
type_synonym u32 = "32 word"

text \<open>
  The exceptions thrown by the codec: \<^verbatim>\<open>std::invalid_argument\<close>, \<^verbatim>\<open>std::out_of_range\<close>,
  \<^verbatim>\<open>std::overflow_error\<close> and \<^verbatim>\<open>std::runtime_error\<close>.
\<close>

datatype error = InvalidArgument | OutOfRange | OverflowError | RuntimeError

section \<open>compression\_utils.cpp: the VByte codec\<close>

lemma vbyteEncode_loop_decreases:
  "128 \<le>s (v::cint) \<Longrightarrow> nat (sint (signed_drop_bit 7 v)) < nat (sint v)"
  by (simp add: word_sle_eq sint_signed_drop_bit_eq drop_bit_eq_div)

text \<open>
  \<^verbatim>\<open>while (value >= 128) { output.push_back(value & 0x7F); value >>= 7; }\<close> followed by
  \<^verbatim>\<open>output.push_back(value | 0x80)\<close>. The shift of a signed \<^verbatim>\<open>int\<close> is arithmetic.
\<close>

function vbyteEncode_loop :: "cint \<Rightarrow> byte list \<Rightarrow> byte list" where
  "vbyteEncode_loop v output =
     (if 128 \<le>s v
      then vbyteEncode_loop (signed_drop_bit 7 v) (output @ [ucast (v AND 0x7F)])
      else output @ [ucast (v OR 0x80)])"
  by pat_completeness auto
termination
  by (relation "measure (\<lambda>(v, output). nat (sint v))")
     (use vbyteEncode_loop_decreases in \<open>auto simp: word_sle_eq\<close>)

declare vbyteEncode_loop.simps [simp del]

definition vbyteEncode :: "cint \<Rightarrow> byte list \<Rightarrow> error + byte list" where
  "vbyteEncode v output =
     (if v <s 0 then Inl InvalidArgument else Inr (vbyteEncode_loop v output))"

text \<open>
  The decoding loop. It ends at the first byte with the high bit set, raises once the
  shift exceeds 28, and also ends, without an error, when the data runs out. The byte is
  promoted to \<^verbatim>\<open>int\<close> before the shift, which is taken modulo \<open>2 ^ 32\<close>.
\<close>

function vbyteDecode_loop ::
  "byte list \<Rightarrow> nat \<Rightarrow> cint \<Rightarrow> nat \<Rightarrow> error + (cint \<times> nat)" where
  "vbyteDecode_loop data offset result shift =
     (if offset < length data then
        (let b = data ! offset;
             offset' = offset + 1;
             result' = result OR push_bit shift (ucast (b AND 0x7F))
         in if b AND 0x80 \<noteq> 0 then Inr (result', offset')
            else if shift + 7 > 28 then Inl OverflowError
            else vbyteDecode_loop data offset' result' (shift + 7))
      else Inr (result, offset))"
  by pat_completeness auto
termination
  by (relation "measure (\<lambda>(data, offset, result, shift). length data - offset)") auto

declare vbyteDecode_loop.simps [simp del]

definition vbyteDecode :: "byte list \<Rightarrow> nat \<Rightarrow> error + (cint \<times> nat)" where
  "vbyteDecode data offset =
     (if offset \<ge> length data then Inl OutOfRange
      else vbyteDecode_loop data offset 0 0)"

lemma vbyteSize_loop_decreases:
  "0 <s (v::cint) \<Longrightarrow> nat (sint (signed_drop_bit 7 v)) < nat (sint v)"
  by (simp add: word_sless_alt sint_signed_drop_bit_eq drop_bit_eq_div)

function vbyteSize_loop :: "cint \<Rightarrow> nat \<Rightarrow> nat" where
  "vbyteSize_loop v sz =
     (if 0 <s v then vbyteSize_loop (signed_drop_bit 7 v) (sz + 1) else sz)"
  by pat_completeness auto
termination
  by (relation "measure (\<lambda>(v, sz). nat (sint v))")
     (use vbyteSize_loop_decreases in \<open>auto simp: word_sless_alt\<close>)

declare vbyteSize_loop.simps [simp del]

definition vbyteSize :: "cint \<Rightarrow> nat" where
  "vbyteSize v = (if v <s 0 then 0 else if v = 0 then 1 else vbyteSize_loop v 0)"

subsection \<open>Posting lists\<close>

text \<open>
  A posting is a \<^verbatim>\<open>std::pair<int, int>\<close> of document identifier and frequency. The
  compression loop carries \<^verbatim>\<open>lastDocId\<close> and the output vector; either check throws
  \<^verbatim>\<open>std::invalid_argument\<close>, as does \<^verbatim>\<open>vbyteEncode\<close> on a negative value.
\<close>

type_synonym posting = "cint \<times> cint"

fun compressPostingList_loop ::
  "posting list \<Rightarrow> cint \<Rightarrow> byte list \<Rightarrow> error + byte list" where
  "compressPostingList_loop [] lastDocId compressed = Inr compressed"
| "compressPostingList_loop ((docId, frequency) # postings) lastDocId compressed =
     (if docId <s lastDocId then Inl InvalidArgument
      else if frequency \<le>s 0 then Inl InvalidArgument
      else (case vbyteEncode (docId - lastDocId) compressed of
              Inl e \<Rightarrow> Inl e
            | Inr c1 \<Rightarrow>
               (case vbyteEncode frequency c1 of
                  Inl e \<Rightarrow> Inl e
                | Inr c2 \<Rightarrow> compressPostingList_loop postings docId c2)))"

definition compressPostingList :: "posting list \<Rightarrow> error + byte list" where
  "compressPostingList postings =
     (if postings = [] then Inr [] else compressPostingList_loop postings 0 [])"

lemma vbyteDecode_loop_offset:
  "vbyteDecode_loop data offset result shift = Inr (r, off') \<Longrightarrow> offset < length data
     \<Longrightarrow> offset < off' \<and> off' \<le> length data"
proof (induction data offset result shift rule: vbyteDecode_loop.induct)
  case (1 data offset result shift)
  show ?case
  proof (cases "data ! offset AND 0x80 \<noteq> 0")
    case True
    with "1.prems" show ?thesis
      by (subst (asm) vbyteDecode_loop.simps) (auto simp: Let_def)
  next
    case False
    with "1.prems" have ns: "\<not> shift + 7 > 28"
      by (subst (asm) vbyteDecode_loop.simps) (auto simp: Let_def split: if_splits)
    from False ns "1.prems"
    have rec: "vbyteDecode_loop data (offset + 1)
                 (result OR push_bit shift (ucast (data ! offset AND 0x7F))) (shift + 7) = Inr (r, off')"
      by (subst (asm) vbyteDecode_loop.simps) (auto simp: Let_def)
    show ?thesis
    proof (cases "offset + 1 < length data")
      case True
      from "1.IH"[OF "1.prems"(2) refl refl refl _ ns rec True] False
      show ?thesis by simp
    next
      case False
      with rec "1.prems"(2) show ?thesis
        by (subst (asm) vbyteDecode_loop.simps) auto
    qed
  qed
qed

lemma vbyteDecode_offset:
  "vbyteDecode data offset = Inr (r, off') \<Longrightarrow> offset < off' \<and> off' \<le> length data"
  unfolding vbyteDecode_def
  by (auto split: if_splits dest: vbyteDecode_loop_offset)

text \<open>
  The decompression loop reads a delta and a frequency while bytes remain; any exception
  of the decoder is rethrown as \<^verbatim>\<open>std::runtime_error\<close>. The running sum
  \<^verbatim>\<open>lastDocId += delta\<close> is 32-bit addition.
\<close>

function decompressPostingList_loop ::
  "byte list \<Rightarrow> nat \<Rightarrow> cint \<Rightarrow> posting list \<Rightarrow> error + posting list" where
  "decompressPostingList_loop data offset lastDocId postings =
     (if offset < length data then
        (case vbyteDecode data offset of
           Inl e \<Rightarrow> Inl RuntimeError
         | Inr (delta, off1) \<Rightarrow>
            (case vbyteDecode data off1 of
               Inl e \<Rightarrow> Inl RuntimeError
             | Inr (frequency, off2) \<Rightarrow>
                 decompressPostingList_loop data off2 (lastDocId + delta)
                   (postings @ [(lastDocId + delta, frequency)])))
      else Inr postings)"
  by pat_completeness auto
termination
proof (relation "measure (\<lambda>(data, offset, lastDocId, postings). length data - offset)")
  show "wf (measure (\<lambda>(data, offset, lastDocId, postings). length data - offset))" by simp
next
  fix data :: "byte list" and offset :: nat and lastDocId :: cint and postings :: "posting list"
    and x2 :: "cint \<times> nat" and delta off1 and x2b :: "cint \<times> nat" and frequency :: cint and off2
  assume "offset < length data" "vbyteDecode data offset = Inr x2" "(delta, off1) = x2"
    "vbyteDecode data off1 = Inr x2b" "(frequency, off2) = x2b"
  then have "offset < off1 \<and> off1 \<le> length data" "off1 < off2 \<and> off2 \<le> length data"
    using vbyteDecode_offset[of data offset delta off1] vbyteDecode_offset[of data off1 frequency off2]
    by auto
  then show "((data, off2, lastDocId + delta, postings @ [(lastDocId + delta, frequency)]),
              (data, offset, lastDocId, postings))
             \<in> measure (\<lambda>(data, offset, lastDocId, postings). length data - offset)"
    by auto
qed

declare decompressPostingList_loop.simps [simp del]

definition decompressPostingList :: "byte list \<Rightarrow> error + posting list" where
  "decompressPostingList data =
     (if data = [] then Inr [] else decompressPostingList_loop data 0 0 [])"


section \<open>Properties of the VByte codec\<close>

subsection \<open>Bit-level facts\<close>

lemma bit_0x7F_int [simp]: "bit (0x7F :: int) n \<longleftrightarrow> n < 7"
proof -
  have "(0x7F :: int) = mask 7" by (simp add: mask_eq_exp_minus_1)
  then show ?thesis by (simp only: bit_mask_iff) auto
qed

lemma bit_0x80_int [simp]: "bit (0x80 :: int) n \<longleftrightarrow> n = 7"
proof -
  have "(0x80 :: int) = push_bit 7 1" by simp
  then show ?thesis by (simp only: bit_push_bit_iff bit_1_iff) (auto simp: bit_simps)
qed

lemma nonneg_iff_top_bit_clear: "0 \<le> sint (v::cint) \<longleftrightarrow> \<not> bit v 31"
  using bit_last_iff[of v] by (simp add: not_less)

lemma signed_drop_bit_nonneg:
  "0 \<le> sint (v::cint) \<Longrightarrow> signed_drop_bit 7 v = drop_bit 7 v"
  by (rule bit_word_eqI)
     (auto simp add: bit_simps nonneg_iff_top_bit_clear dest: bit_imp_le_length)

lemma low_group_high_bit_clear: "(ucast ((v::cint) AND 0x7F) :: byte) AND 0x80 = 0"
  by (rule bit_word_eqI) (auto simp add: bit_simps)

lemma low_group_payload:
  "(ucast ((ucast ((v::cint) AND 0x7F) :: byte) AND 0x7F) :: cint) = v AND 0x7F"
  by (rule bit_word_eqI) (auto simp add: bit_simps)

lemma last_group_high_bit_set: "(ucast ((v::cint) OR 0x80) :: byte) AND 0x80 \<noteq> 0"
proof -
  have "bit ((ucast (v OR 0x80) :: byte) AND 0x80) 7"
    by (simp add: bit_simps)
  then show ?thesis by auto
qed

lemma small_value_bits:
  assumes "0 \<le> sint (v::cint)" "\<not> 128 \<le>s v" "bit v n"
  shows "n < 7"
proof -
  from assms(1,2) have "take_bit 7 (sint v) = sint v"
    by (simp add: take_bit_int_eq_self word_sle_eq)
  moreover have "bit (sint v) n" using assms(3) by (simp add: bit_sint_iff)
  ultimately have "bit (take_bit 7 (sint v)) n" by simp
  then show ?thesis by (simp add: bit_take_bit_iff)
qed

lemma last_group_payload:
  "0 \<le> sint (v::cint) \<Longrightarrow> \<not> 128 \<le>s v
     \<Longrightarrow> (ucast ((ucast (v OR 0x80) :: byte) AND 0x7F) :: cint) = v"
  by (rule bit_word_eqI) (auto simp add: bit_simps dest: small_value_bits)

lemma split_low_group: "((v::cint) AND 0x7F) OR push_bit 7 (drop_bit 7 v) = v"
proof (rule bit_word_eqI)
  fix n assume "n < LENGTH(32)"
  then show "bit ((v AND 0x7F) OR push_bit 7 (drop_bit 7 v)) n = bit v n"
    by (cases "n < 7") (auto simp add: bit_simps)
qed

lemma recombine_groups:
  assumes "0 \<le> sint (v::cint)"
  shows "(r OR push_bit (7 * k) (v AND 0x7F)) OR push_bit (7 * (k + 1)) (signed_drop_bit 7 v)
           = r OR push_bit (7 * k) v"
proof -
  have "push_bit (7 * (k + 1)) (signed_drop_bit 7 v)
          = push_bit (7 * k) (push_bit 7 (drop_bit 7 v))"
    using assms by (simp add: signed_drop_bit_nonneg push_bit_push_bit add.commute)
  then have "push_bit (7 * k) (v AND 0x7F) OR push_bit (7 * (k + 1)) (signed_drop_bit 7 v)
      = push_bit (7 * k) ((v AND 0x7F) OR push_bit 7 (drop_bit 7 v))"
    by (simp add: push_bit_or)
  then show ?thesis by (simp add: split_low_group or.assoc)
qed

subsection \<open>The encoder appends; the decoder inverts it\<close>

lemma vbyteEncode_loop_append: "vbyteEncode_loop v out = out @ vbyteEncode_loop v []"
proof (induction "nat (sint v)" arbitrary: v out rule: less_induct)
  case less
  show ?case
  proof (cases "128 \<le>s v")
    case True
    note IH = less[OF vbyteEncode_loop_decreases[OF True]]
    show ?thesis
      using True IH[of "out @ [ucast (v AND 0x7F)]"] IH[of "[ucast (v AND 0x7F)]"]
      by (simp add: vbyteEncode_loop.simps[of v])
  next
    case False
    then show ?thesis by (simp add: vbyteEncode_loop.simps[of v])
  qed
qed

lemma vbyteEncode_loop_unfold:
  "vbyteEncode_loop v [] =
     (if 128 \<le>s v then ucast (v AND 0x7F) # vbyteEncode_loop (signed_drop_bit 7 v) []
      else [ucast (v OR 0x80)])"
  by (subst vbyteEncode_loop.simps, subst vbyteEncode_loop_append) simp

lemma vbyteEncode_loop_nonempty: "vbyteEncode_loop v [] \<noteq> []"
  by (subst vbyteEncode_loop_unfold) simp

lemma vbyteDecode_loop_encoded:
  "0 \<le> sint v \<Longrightarrow> sint v < 2 ^ (31 - 7 * k) \<Longrightarrow> k \<le> 4 \<Longrightarrow>
   vbyteDecode_loop (pre @ vbyteEncode_loop v [] @ rest) (length pre) r (7 * k)
     = Inr (r OR push_bit (7 * k) v, length pre + length (vbyteEncode_loop v []))"
proof (induction "nat (sint v)" arbitrary: v pre r k rule: less_induct)
  case less
  show ?case
  proof (cases "128 \<le>s v")
    case True
    let ?b = "ucast (v AND 0x7F) :: byte"
    let ?v' = "signed_drop_bit 7 v"
    have e: "vbyteEncode_loop v [] = ?b # vbyteEncode_loop ?v' []"
      using True by (subst vbyteEncode_loop_unfold) simp
    have k3: "k \<le> 3"
    proof (rule ccontr)
      assume "\<not> k \<le> 3" then have "k = 4" using less.prems by simp
      then show False using less.prems True by (simp add: word_sle_eq)
    qed
    have s0: "0 \<le> sint ?v'" using less.prems by (simp add: sint_signed_drop_bit_eq)
    have s1: "sint ?v' < 2 ^ (31 - 7 * (k + 1))"
    proof -
      have "31 - 7 * k = (31 - 7 * (k + 1)) + 7" using k3 by simp
      then have "(2::int) ^ (31 - 7 * k) = 2 ^ (31 - 7 * (k + 1)) * 2 ^ 7"
        by (simp only: power_add)
      then have "sint v < 2 ^ (31 - 7 * (k + 1)) * 2 ^ 7"
        using less.prems by simp
      then show ?thesis
        by (simp add: sint_signed_drop_bit_eq drop_bit_eq_div div_less_iff_less_mult)
    qed
    let ?r' = "r OR push_bit (7 * k) (v AND 0x7F)"
    let ?D = "pre @ vbyteEncode_loop v [] @ rest"
    have D: "?D = (pre @ [?b]) @ vbyteEncode_loop ?v' [] @ rest" by (simp add: e)
    have IH: "vbyteDecode_loop ?D (length (pre @ [?b])) ?r' (7 * (k + 1))
        = Inr (?r' OR push_bit (7 * (k + 1)) ?v',
               length (pre @ [?b]) + length (vbyteEncode_loop ?v' []))"
      unfolding D using k3
      by (intro less.hyps[OF vbyteEncode_loop_decreases[OF True] s0 s1]) simp
    have nth: "?D ! length pre = ?b" by (simp add: e)
    have "vbyteDecode_loop ?D (length pre) r (7 * k)
        = vbyteDecode_loop ?D (length (pre @ [?b])) ?r' (7 * (k + 1))"
      using k3
      by (subst vbyteDecode_loop.simps)
         (simp add: nth low_group_high_bit_clear low_group_payload Let_def e add.commute)
    also note IH
    also have "?r' OR push_bit (7 * (k + 1)) ?v' = r OR push_bit (7 * k) v"
      by (rule recombine_groups[OF less.prems(1)])
    also have "length (pre @ [?b]) + length (vbyteEncode_loop ?v' [])
                 = length pre + length (vbyteEncode_loop v [])"
      by (simp add: e)
    finally show ?thesis .
  next
    case False
    then have e: "vbyteEncode_loop v [] = [ucast (v OR 0x80)]"
      by (subst vbyteEncode_loop_unfold) simp
    show ?thesis
      using False less.prems
      by (simp add: e vbyteDecode_loop.simps[of _ "length pre"]
            last_group_high_bit_set last_group_payload Let_def)
  qed
qed

lemma vbyteDecode_encoded:
  assumes "0 \<le> sint v"
  shows "vbyteDecode (pre @ vbyteEncode_loop v [] @ rest) (length pre)
           = Inr (v, length pre + length (vbyteEncode_loop v []))"
proof -
  have "sint v < 2 ^ (31 - 7 * 0)" using sint_lt[of v] by simp
  from vbyteDecode_loop_encoded[OF assms this, of pre rest 0]
  have "vbyteDecode_loop (pre @ vbyteEncode_loop v [] @ rest) (length pre) 0 0
          = Inr (v, length pre + length (vbyteEncode_loop v []))"
    by simp
  moreover have "length pre < length (pre @ vbyteEncode_loop v [] @ rest)"
    using vbyteEncode_loop_nonempty[of v] by (simp add: length_greater_0_conv)
  ultimately show ?thesis by (simp add: vbyteDecode_def)
qed

subsection \<open>The size estimate counts the encoder's bytes\<close>

lemma vbyteSize_loop_length:
  "0 <s v \<Longrightarrow> vbyteSize_loop v sz = sz + length (vbyteEncode_loop v [])"
proof (induction "nat (sint v)" arbitrary: v sz rule: less_induct)
  case less
  let ?v' = "signed_drop_bit 7 v"
  have step: "vbyteSize_loop v sz = vbyteSize_loop ?v' (sz + 1)"
    using less.prems by (subst vbyteSize_loop.simps) simp
  show ?case
  proof (cases "128 \<le>s v")
    case True
    then have pos: "0 <s ?v'"
      by (simp add: word_sless_alt word_sle_eq sint_signed_drop_bit_eq drop_bit_eq_div
            pos_imp_zdiv_pos_iff)
    have e: "vbyteEncode_loop v [] = ucast (v AND 0x7F) # vbyteEncode_loop ?v' []"
      using True by (subst vbyteEncode_loop_unfold) simp
    show ?thesis
      using less.hyps[OF vbyteEncode_loop_decreases[OF True] pos, of "sz + 1"]
      by (simp add: step e)
  next
    case False
    then have "\<not> 0 <s ?v'"
      using less.prems
      by (simp add: word_sless_alt word_sle_eq sint_signed_drop_bit_eq drop_bit_eq_div)
    then have "vbyteSize_loop ?v' (sz + 1) = sz + 1"
      by (subst vbyteSize_loop.simps) simp
    moreover have "vbyteEncode_loop v [] = [ucast (v OR 0x80)]"
      using False by (subst vbyteEncode_loop_unfold) simp
    ultimately show ?thesis by (simp add: step)
  qed
qed

lemma vbyteSize_length:
  "0 \<le> sint v \<Longrightarrow> vbyteSize v = length (vbyteEncode_loop v [])"
proof (cases "v = 0")
  case True
  then show ?thesis
    by (simp add: vbyteSize_def word_sless_alt vbyteEncode_loop.simps[of 0] word_sle_eq)
next
  case False
  assume "0 \<le> sint v"
  with False have "0 <s v"
    by (metis order_le_less signed_eq_0_iff word_sless_alt sint_0)
  then show ?thesis
    using False vbyteSize_loop_length[of v 0] by (simp add: vbyteSize_def word_sless_alt)
qed

lemma vbyteSize_loop_groups:
  "0 <s v \<Longrightarrow> 128 ^ (vbyteSize_loop v sz - sz - 1) \<le> sint v
              \<and> sint v < 128 ^ (vbyteSize_loop v sz - sz)"
proof (induction "nat (sint v)" arbitrary: v sz rule: less_induct)
  case less
  let ?v' = "signed_drop_bit 7 v"
  have step: "vbyteSize_loop v sz = vbyteSize_loop ?v' (sz + 1)"
    using less.prems by (subst vbyteSize_loop.simps) simp
  have sv': "sint ?v' = sint v div 128"
    by (simp add: sint_signed_drop_bit_eq drop_bit_eq_div)
  show ?case
  proof (cases "128 \<le>s v")
    case True
    then have pos: "0 <s ?v'"
      by (simp add: word_sless_alt word_sle_eq sv' pos_imp_zdiv_pos_iff)
    define n where "n = vbyteSize_loop ?v' (sz + 1) - (sz + 1)"
    have n1: "vbyteSize_loop ?v' (sz + 1) = sz + 1 + n"
      using vbyteSize_loop_length[OF pos, of "sz + 1"] by (simp add: n_def)
    have npos: "0 < n"
      using vbyteSize_loop_length[OF pos, of "sz + 1"] vbyteEncode_loop_nonempty[of ?v']
      by (simp add: n_def length_greater_0_conv)
    from less.hyps[OF vbyteEncode_loop_decreases[OF True] pos, of "sz + 1"]
    have b: "128 ^ (n - 1) \<le> sint v div 128" "sint v div 128 < 128 ^ n"
      by (simp_all add: n_def sv')
    have lo: "128 ^ n \<le> sint v"
    proof -
      have "128 * 128 ^ (n - 1) \<le> 128 * (sint v div 128)" using b(1) by simp
      also have "\<dots> \<le> sint v"
        using mult_div_mod_eq[of 128 "sint v"] pos_mod_sign[of 128 "sint v"] by linarith
      finally show ?thesis using npos by (cases n) simp_all
    qed
    have hi: "sint v < 128 ^ (n + 1)"
      using b(2) by (simp add: div_less_iff_less_mult mult.commute)
    have "vbyteSize_loop v sz - sz - 1 = n" "vbyteSize_loop v sz - sz = n + 1"
      unfolding step n1 by simp_all
    then show ?thesis using lo hi by (simp only:)
  next
    case False
    then have "\<not> 0 <s ?v'"
      using less.prems by (simp add: word_sless_alt word_sle_eq sv')
    then have "vbyteSize_loop ?v' (sz + 1) = sz + 1"
      by (subst vbyteSize_loop.simps) simp
    then show ?thesis
      using False less.prems by (simp add: step word_sless_alt word_sle_eq)
  qed
qed

subsection \<open>Round trip of a single value\<close>

text \<open>
  Claim C2. For every integer \<open>n\<close> with \<open>0 \<le> n < 2 ^ 31\<close>, taken as an \<^verbatim>\<open>int\<close>:
  \<^verbatim>\<open>vbyteEncode\<close> into an empty vector succeeds, \<^verbatim>\<open>vbyteDecode\<close> of the bytes from
  offset 0 returns \<open>n\<close> and leaves the offset at the end of the bytes, and the number of
  bytes is \<^verbatim>\<open>vbyteSize(n)\<close>. \<^verbatim>\<open>vbyteSize(0)\<close> is 1, and for \<open>n > 0\<close> it is the number
  of 7-bit groups of \<open>n\<close>: the \<open>s\<close> with \<open>128 ^ (s - 1) \<le> n < 128 ^ s\<close>; so 127 takes
  1 byte, 128 and 16383 take 2, and 16384 takes 3.
\<close>

theorem vbyte_roundtrip_and_size:
  fixes n :: int
  assumes "0 \<le> n" and "n < 2 ^ 31"
  shows "(\<exists>bs d. vbyteEncode (word_of_int n) [] = Inr bs
            \<and> vbyteDecode bs 0 = Inr (d, length bs) \<and> sint d = n
            \<and> length bs = vbyteSize (word_of_int n))
         \<and> (if n = 0 then vbyteSize (word_of_int n) = 1
             else 128 ^ (vbyteSize (word_of_int n) - 1) \<le> n
                  \<and> n < 128 ^ vbyteSize (word_of_int n))
         \<and> vbyteSize 0 = 1 \<and> vbyteSize 127 = 1 \<and> vbyteSize 128 = 2
         \<and> vbyteSize 16383 = 2 \<and> vbyteSize 16384 = 3"
proof -
  let ?v = "word_of_int n :: cint"
  have sv: "sint ?v = n"
    using assms by (simp add: sint_sbintrunc' signed_take_bit_int_eq_self)
  then have nn: "0 \<le> sint ?v" using assms by simp
  have enc: "vbyteEncode ?v [] = Inr (vbyteEncode_loop ?v [])"
    using nn by (simp add: vbyteEncode_def word_sless_alt)
  have dec: "vbyteDecode (vbyteEncode_loop ?v []) 0
               = Inr (?v, length (vbyteEncode_loop ?v []))"
    using vbyteDecode_encoded[OF nn, of "[]" "[]"] by simp
  have len: "length (vbyteEncode_loop ?v []) = vbyteSize ?v"
    using vbyteSize_length[OF nn] by simp
  have groups: "if n = 0 then vbyteSize ?v = 1
                else 128 ^ (vbyteSize ?v - 1) \<le> n \<and> n < 128 ^ vbyteSize ?v"
  proof (cases "n = 0")
    case True
    then show ?thesis by (simp add: vbyteSize_def word_sless_alt)
  next
    case False
    then have pos: "0 <s ?v" using assms(1) sv by (simp add: word_sless_alt)
    then have "?v \<noteq> 0" by auto
    then have "vbyteSize ?v = vbyteSize_loop ?v 0"
      using nn by (simp add: vbyteSize_def word_sless_alt)
    then show ?thesis
      using vbyteSize_loop_groups[OF pos, of 0] False sv by simp
  qed
  have ex: "vbyteSize 0 = 1" "vbyteSize 127 = 1" "vbyteSize 128 = 2"
    "vbyteSize 16383 = 2" "vbyteSize 16384 = 3"
    by (simp_all add: vbyteSize_def vbyteSize_loop.simps word_sless_alt)
  from enc dec sv len groups ex show ?thesis by blast
qed

theorem vbyte_roundtrip_and_size_witness:
  "(\<exists>bs d. vbyteEncode 300 [] = Inr bs
       \<and> vbyteDecode bs 0 = Inr (d, length bs) \<and> sint d = 300
       \<and> length bs = vbyteSize 300)
   \<and> 128 ^ (vbyteSize 300 - 1) \<le> (300::int) \<and> (300::int) < 128 ^ vbyteSize 300"
  using vbyte_roundtrip_and_size[of 300] by simp

section \<open>Properties of posting-list compression\<close>

text \<open>
  The checks of the compression loop as a predicate on the list: no identifier is below
  its predecessor (the first is compared with the initial \<^verbatim>\<open>lastDocId\<close>) and every
  frequency is positive. \<open>encoded_postings\<close> is the byte string the loop appends when the
  checks pass. Both are used in proofs only.
\<close>

fun accepted_from :: "cint \<Rightarrow> posting list \<Rightarrow> bool" where
  "accepted_from lastDocId [] = True"
| "accepted_from lastDocId ((docId, frequency) # postings) =
     (\<not> docId <s lastDocId \<and> \<not> frequency \<le>s 0 \<and> accepted_from docId postings)"

fun encoded_postings :: "cint \<Rightarrow> posting list \<Rightarrow> byte list" where
  "encoded_postings lastDocId [] = []"
| "encoded_postings lastDocId ((docId, frequency) # postings) =
     vbyteEncode_loop (docId - lastDocId) [] @ vbyteEncode_loop frequency []
       @ encoded_postings docId postings"

lemma delta_nonneg:
  assumes "0 \<le> sint (l::cint)" "\<not> d <s l"
  shows "0 \<le> sint (d - l)" and "0 \<le> sint d"
proof -
  from assms have le: "sint l \<le> sint d" by (simp add: word_sless_alt)
  then show "0 \<le> sint d" using assms(1) by simp
  have "sint d - sint l < 2 ^ 31" using sint_lt[of d] assms(1) by simp
  moreover have "0 \<le> sint d - sint l" using le by simp
  ultimately have "signed_take_bit 31 (sint d - sint l) = sint d - sint l"
    by (simp add: signed_take_bit_int_eq_self)
  then have "sint (d - l) = sint d - sint l"
    by (simp add: sint_word_ariths)
  then show "0 \<le> sint (d - l)" using le by simp
qed

lemma compressPostingList_loop_result:
  "0 \<le> sint lastDocId \<Longrightarrow>
   compressPostingList_loop ps lastDocId out =
     (if accepted_from lastDocId ps then Inr (out @ encoded_postings lastDocId ps)
      else Inl InvalidArgument)"
proof (induction ps arbitrary: lastDocId out)
  case Nil
  then show ?case by simp
next
  case (Cons p ps)
  obtain d f where p: "p = (d, f)" by (cases p)
  show ?case
  proof (cases "d <s lastDocId \<or> f \<le>s 0")
    case True
    then show ?thesis by (auto simp: p)
  next
    case False
    then have ok: "\<not> d <s lastDocId" "\<not> f \<le>s 0" by simp_all
    from delta_nonneg[OF Cons.prems ok(1)]
    have dn: "\<not> (d - lastDocId) <s 0" and d0: "0 \<le> sint d"
      by (simp_all add: word_sless_alt)
    have fn: "\<not> f <s 0" using ok(2) by (simp add: word_sless_alt word_sle_eq)
    show ?thesis
      using ok dn fn Cons.IH[OF d0]
      by (simp add: p vbyteEncode_def vbyteEncode_loop_append[of _ "out"]
            vbyteEncode_loop_append[of _ "out @ _"])
  qed
qed

lemma decompressPostingList_loop_encoded:
  "0 \<le> sint lastDocId \<Longrightarrow> accepted_from lastDocId ps \<Longrightarrow>
   decompressPostingList_loop (pre @ encoded_postings lastDocId ps) (length pre) lastDocId acc
     = Inr (acc @ ps)"
proof (induction ps arbitrary: lastDocId pre acc)
  case Nil
  then show ?case by (subst decompressPostingList_loop.simps) simp
next
  case (Cons p ps)
  obtain d f where p: "p = (d, f)" by (cases p)
  from Cons.prems have ok: "\<not> d <s lastDocId" "\<not> f \<le>s 0" "accepted_from d ps"
    by (simp_all add: p)
  let ?e1 = "vbyteEncode_loop (d - lastDocId) []"
  let ?e2 = "vbyteEncode_loop f []"
  let ?rest = "encoded_postings d ps"
  let ?D = "pre @ encoded_postings lastDocId (p # ps)"
  have D1: "?D = pre @ ?e1 @ (?e2 @ ?rest)" by (simp add: p)
  have D2: "?D = (pre @ ?e1) @ ?e2 @ ?rest" by (simp add: p)
  have D3: "?D = (pre @ ?e1 @ ?e2) @ ?rest" by (simp add: p)
  note nn = delta_nonneg[OF Cons.prems(1) ok(1)]
  have f0: "0 \<le> sint f" using ok(2) by (simp add: word_sle_eq)
  have dec1: "vbyteDecode ?D (length pre) = Inr (d - lastDocId, length (pre @ ?e1))"
    unfolding D1 using vbyteDecode_encoded[OF nn(1), of pre "?e2 @ ?rest"] by simp
  have dec2: "vbyteDecode ?D (length (pre @ ?e1)) = Inr (f, length (pre @ ?e1 @ ?e2))"
    unfolding D2 using vbyteDecode_encoded[OF f0, of "pre @ ?e1" ?rest] by simp
  have lt: "length pre < length ?D"
    using vbyteEncode_loop_nonempty[of "d - lastDocId"]
    by (simp add: p length_greater_0_conv)
  have "decompressPostingList_loop ?D (length pre) lastDocId acc
          = decompressPostingList_loop ?D (length (pre @ ?e1 @ ?e2)) d (acc @ [(d, f)])"
    by (subst decompressPostingList_loop.simps) (simp add: lt dec1 dec2 del: length_append)
  also have "\<dots> = Inr ((acc @ [(d, f)]) @ ps)"
    unfolding D3 by (rule Cons.IH[OF nn(2) ok(3)])
  finally show ?case by (simp add: p)
qed

lemma encoded_postings_empty_iff: "encoded_postings l ps = [] \<longleftrightarrow> ps = []"
  by (cases ps) (auto simp: vbyteEncode_loop_nonempty)

lemma accepted_from_iff:
  "0 \<le> sint l \<Longrightarrow>
   accepted_from l ps \<longleftrightarrow>
     sorted_wrt (\<lambda>p q. fst p \<le>s fst q) ps
     \<and> (\<forall>p \<in> set ps. l \<le>s fst p \<and> 0 <s snd p)"
proof (induction ps arbitrary: l)
  case Nil
  then show ?case by simp
next
  case (Cons p ps)
  obtain d f where p: "p = (d, f)" by (cases p)
  show ?case
  proof (cases "\<not> d <s l")
    case True
    then have d0: "0 \<le> sint d" using Cons.prems by (simp add: word_sless_alt)
    have le: "l \<le>s d" using True by (simp add: word_sless_alt word_sle_eq)
    have "(\<forall>q \<in> set ps. d \<le>s fst q \<and> 0 <s snd q)
            \<longleftrightarrow> (\<forall>q \<in> set ps. d \<le>s fst q) \<and> (\<forall>q \<in> set ps. l \<le>s fst q \<and> 0 <s snd q)"
      using le by (auto simp: word_sle_eq)
    then show ?thesis
      using True le Cons.IH[OF d0]
      by (auto simp: p word_sless_alt word_sle_eq not_le not_less)
  next
    case False
    then show ?thesis by (auto simp: p word_sless_alt word_sle_eq)
  qed
qed

subsection \<open>Round trip of a posting list\<close>

text \<open>
  Claim C1. For every posting list \<open>P\<close> that is sorted ascending by DocId (repeated
  identifiers allowed) with every frequency at least 1, \<^verbatim>\<open>compressPostingList\<close> succeeds and
  \<^verbatim>\<open>decompressPostingList\<close> of its bytes returns \<open>P\<close>; the empty list is compressed to
  the empty byte sequence. A DocId is a positive integer in the data model; the proof needs
  only that no DocId is negative.
\<close>

theorem posting_list_roundtrip:
  assumes "sorted_wrt (\<lambda>p q. fst p \<le>s fst q) P"
    and "\<forall>p \<in> set P. 0 \<le>s fst p \<and> 1 \<le>s snd p"
  shows "(\<exists>bs. compressPostingList P = Inr bs \<and> decompressPostingList bs = Inr P)
         \<and> compressPostingList [] = Inr []"
proof -
  have z: "0 \<le> sint (0::cint)" by simp
  have "\<forall>p \<in> set P. 0 \<le>s fst p \<and> 0 <s snd p"
    using assms(2) by (auto simp: word_sle_eq word_sless_alt)
  with assms(1) have acc: "accepted_from 0 P"
    using accepted_from_iff[OF z, of P] by simp
  show ?thesis
  proof (cases "P = []")
    case True
    then show ?thesis by (simp add: compressPostingList_def decompressPostingList_def)
  next
    case False
    have c: "compressPostingList P = Inr (encoded_postings 0 P)"
      using False acc compressPostingList_loop_result[OF z, of P "[]"]
      by (simp add: compressPostingList_def)
    have ne: "encoded_postings 0 P \<noteq> []"
      using False by (simp add: encoded_postings_empty_iff)
    have "decompressPostingList_loop ([] @ encoded_postings 0 P) (length ([]::byte list)) 0 []
            = Inr ([] @ P)"
      by (rule decompressPostingList_loop_encoded[OF z acc])
    then have "decompressPostingList (encoded_postings 0 P) = Inr P"
      using ne by (simp add: decompressPostingList_def)
    with c show ?thesis by (simp add: compressPostingList_def)
  qed
qed

theorem posting_list_roundtrip_witness:
  "\<exists>bs. compressPostingList [(1, 5), (3, 2), (3, 1), (1000000, 2)] = Inr bs
        \<and> decompressPostingList bs = Inr [(1, 5), (3, 2), (3, 1), (1000000, 2)]"
  using posting_list_roundtrip[of "[(1, 5), (3, 2), (3, 1), (1000000, 2)]"]
  by (simp add: word_sle_eq)

subsection \<open>When the encoder fails\<close>

text \<open>
  Claim C7 says that \<^verbatim>\<open>compressPostingList\<close> fails on every list that is not strictly
  ascending. The loop compares with \<^verbatim>\<open>docId < lastDocId\<close>, so a repeated DocId passes and
  is written with delta 0.
\<close>

theorem compress_accepts_repeated_docId:
  "\<not> sorted_wrt (\<lambda>p q. fst p <s fst q) [(1, 1), (1, 1) :: posting]
   \<and> compressPostingList [(1, 1), (1, 1)] = Inr [129, 129, 128, 129]"
  by (simp add: compressPostingList_def vbyteEncode_def vbyteEncode_loop.simps
        word_sless_alt word_sle_eq)

text \<open>
  Claim C7, amended. \<^verbatim>\<open>compressPostingList\<close> succeeds exactly on the lists that are
  ascending by DocId, strictly or with repeated identifiers, with no negative DocId and
  every frequency positive; on every other list it raises the invalid-argument error.
\<close>

theorem compress_fails_exactly_when:
  "(sorted_wrt (\<lambda>p q. fst p \<le>s fst q) P \<and> (\<forall>p \<in> set P. 0 \<le>s fst p \<and> 0 <s snd p)
      \<longrightarrow> (\<exists>bs. compressPostingList P = Inr bs))
   \<and> (\<not> (sorted_wrt (\<lambda>p q. fst p \<le>s fst q) P \<and> (\<forall>p \<in> set P. 0 \<le>s fst p \<and> 0 <s snd p))
      \<longrightarrow> compressPostingList P = Inl InvalidArgument)"
proof -
  have z: "0 \<le> sint (0::cint)" by simp
  show ?thesis
  proof (cases "P = []")
    case True
    then show ?thesis by (simp add: compressPostingList_def)
  next
    case False
    then have "compressPostingList P =
        (if accepted_from 0 P then Inr (encoded_postings 0 P) else Inl InvalidArgument)"
      using compressPostingList_loop_result[OF z, of P "[]"]
      by (simp add: compressPostingList_def)
    then show ?thesis
      unfolding accepted_from_iff[OF z, of P] by (simp split: if_splits)
  qed
qed

theorem compress_fails_exactly_when_witness:
  "(\<exists>bs. compressPostingList [(1, 1), (1, 2), (7, 1)] = Inr bs)
   \<and> compressPostingList [(2, 1), (1, 1)] = Inl InvalidArgument
   \<and> compressPostingList [(1, 0)] = Inl InvalidArgument"
  using compress_fails_exactly_when[of "[(1, 1), (1, 2), (7, 1)]"]
    compress_fails_exactly_when[of "[(2, 1), (1, 1)]"]
    compress_fails_exactly_when[of "[(1, 0)]"]
  by (simp add: word_sle_eq word_sless_alt)

section \<open>text\_utils.cpp: the text analyzer\<close>

text \<open>
  A \<^verbatim>\<open>std::string\<close> is a list of bytes, read as \<^verbatim>\<open>unsigned char\<close>; a decoded text is a
  list of 32-bit code points.
\<close>

type_synonym bytes = "byte list"

definition isContinuationByte :: "byte \<Rightarrow> bool" where
  "isContinuationByte b \<longleftrightarrow> b AND 0xC0 = 0x80"

text \<open>
  The chain of tests on the lead byte in \<^verbatim>\<open>stringToCodes\<close>: the initial code point and
  the number of continuation bytes, or \<open>None\<close> in the final \<^verbatim>\<open>else\<close> branch, which skips
  the byte.
\<close>

definition leadByte :: "byte \<Rightarrow> (u32 \<times> nat) option" where
  "leadByte b =
     (if b < 0x80 then Some (ucast b, 0)
      else if b AND 0xE0 = 0xC0 then Some (ucast (b AND 0x1F), 1)
      else if b AND 0xF0 = 0xE0 then Some (ucast (b AND 0x0F), 2)
      else if b AND 0xF8 = 0xF0 then Some (ucast (b AND 0x07), 3)
      else None)"

text \<open>
  The inner \<^verbatim>\<open>for\<close> loop over the continuation bytes \<^verbatim>\<open>ptr[i + 1 .. i + n]\<close>: \<open>None\<close>
  when one of them is not of the form \<^verbatim>\<open>10xxxxxx\<close>.
\<close>

fun continuationBytes :: "bytes \<Rightarrow> u32 \<Rightarrow> u32 option" where
  "continuationBytes [] codepoint = Some codepoint"
| "continuationBytes (b # bs) codepoint =
     (if \<not> isContinuationByte b then None
      else continuationBytes bs (push_bit 6 codepoint OR ucast (b AND 0x3F)))"

text \<open>
  The outer loop of \<^verbatim>\<open>stringToCodes\<close>. The cursor \<^verbatim>\<open>i\<close> is kept as the bytes from
  \<^verbatim>\<open>ptr[i]\<close> to the end, so \<^verbatim>\<open>i + numContinuationBytes >= length\<close> reads
  \<open>n \<ge> length s\<close>, \<^verbatim>\<open>++i; continue\<close> is \<open>drop 1 s\<close>, and \<^verbatim>\<open>break\<close> returns the result.
\<close>

function stringToCodes_loop :: "bytes \<Rightarrow> u32 list \<Rightarrow> u32 list" where
  "stringToCodes_loop s result =
     (case s of
        [] \<Rightarrow> result
      | b # _ \<Rightarrow>
         (case leadByte b of
            None \<Rightarrow> stringToCodes_loop (drop 1 s) result
          | Some (codepoint, n) \<Rightarrow>
              if n \<ge> length s then result
              else (case continuationBytes (take n (drop 1 s)) codepoint of
                      None \<Rightarrow> stringToCodes_loop (drop 1 s) result
                    | Some cp \<Rightarrow> stringToCodes_loop (drop (1 + n) s) (result @ [cp]))))"
  by pat_completeness auto
termination
  by (relation "measure (\<lambda>(s, result). length s)") auto

declare stringToCodes_loop.simps [simp del]

definition stringToCodes :: "bytes \<Rightarrow> u32 list" where
  "stringToCodes s = stringToCodes_loop s []"

text \<open>
  The bytes \<^verbatim>\<open>codesToString\<close> pushes for one code point; nothing for a code point
  above \<open>0x10FFFF\<close>.
\<close>

definition encodeCodepoint :: "u32 \<Rightarrow> bytes" where
  "encodeCodepoint codepoint =
     (if codepoint \<le> 0x7F then [ucast codepoint]
      else if codepoint \<le> 0x7FF then
        [ucast (0xC0 OR (drop_bit 6 codepoint AND 0x1F)),
         ucast (0x80 OR (codepoint AND 0x3F))]
      else if codepoint \<le> 0xFFFF then
        [ucast (0xE0 OR (drop_bit 12 codepoint AND 0x0F)),
         ucast (0x80 OR (drop_bit 6 codepoint AND 0x3F)),
         ucast (0x80 OR (codepoint AND 0x3F))]
      else if codepoint \<le> 0x10FFFF then
        [ucast (0xF0 OR (drop_bit 18 codepoint AND 0x07)),
         ucast (0x80 OR (drop_bit 12 codepoint AND 0x3F)),
         ucast (0x80 OR (drop_bit 6 codepoint AND 0x3F)),
         ucast (0x80 OR (codepoint AND 0x3F))]
      else [])"

definition codesToString :: "u32 list \<Rightarrow> bytes" where
  "codesToString codes = concat (map encodeCodepoint codes)"

definition charToLower :: "u32 \<Rightarrow> u32" where
  "charToLower codepoint =
     (if 0x41 \<le> codepoint \<and> codepoint \<le> 0x5A then codepoint + 32
      else if 0x0410 \<le> codepoint \<and> codepoint \<le> 0x042F then codepoint + 0x20
      else if codepoint = 0x0401 then 0x0451
      else codepoint)"

definition isValidSymbol :: "u32 \<Rightarrow> bool" where
  "isValidSymbol codepoint \<longleftrightarrow>
     (0x41 \<le> codepoint \<and> codepoint \<le> 0x5A) \<or> (0x61 \<le> codepoint \<and> codepoint \<le> 0x7A)
     \<or> (0x30 \<le> codepoint \<and> codepoint \<le> 0x39)
     \<or> (0x0400 \<le> codepoint \<and> codepoint \<le> 0x04FF)"

definition toLowerCase :: "bytes \<Rightarrow> bytes" where
  "toLowerCase s = codesToString (map charToLower (stringToCodes s))"

text \<open>
  The loop of \<^verbatim>\<open>tokenize\<close> over the code points, with the token being collected and the
  tokens emitted so far; the first equation is the flush after the loop.
\<close>

fun tokenize_loop :: "u32 list \<Rightarrow> u32 list \<Rightarrow> bytes list \<Rightarrow> bytes list" where
  "tokenize_loop [] currentToken tokens =
     (if currentToken \<noteq> [] then tokens @ [codesToString currentToken] else tokens)"
| "tokenize_loop (codepoint # codes) currentToken tokens =
     (if isValidSymbol codepoint
      then tokenize_loop codes (currentToken @ [charToLower codepoint]) tokens
      else if currentToken \<noteq> []
        then tokenize_loop codes [] (tokens @ [codesToString currentToken])
        else tokenize_loop codes currentToken tokens)"

definition tokenize :: "bytes \<Rightarrow> bytes list" where
  "tokenize text = tokenize_loop (stringToCodes text) [] []"

section \<open>Properties of the text analyzer\<close>

subsection \<open>Bits of the UTF-8 constants\<close>

lemma bit_utf8_masks_int [simp]:
  "bit (0x3F :: int) n \<longleftrightarrow> n < 6"
  "bit (0x1F :: int) n \<longleftrightarrow> n < 5"
  "bit (0x0F :: int) n \<longleftrightarrow> n < 4"
  "bit (0x07 :: int) n \<longleftrightarrow> n < 3"
proof -
  have "(0x3F :: int) = mask 6" "(0x1F :: int) = mask 5"
    "(0x0F :: int) = mask 4" "(0x07 :: int) = mask 3"
    by (simp_all add: mask_eq_exp_minus_1)
  then show "bit (0x3F :: int) n \<longleftrightarrow> n < 6" "bit (0x1F :: int) n \<longleftrightarrow> n < 5"
    "bit (0x0F :: int) n \<longleftrightarrow> n < 4" "bit (0x07 :: int) n \<longleftrightarrow> n < 3"
    by (simp_all only: bit_mask_iff) auto
qed

lemma bit_utf8_leads_int [simp]:
  "bit (0xC0 :: int) n \<longleftrightarrow> 6 \<le> n \<and> n < 8"
  "bit (0xE0 :: int) n \<longleftrightarrow> 5 \<le> n \<and> n < 8"
  "bit (0xF0 :: int) n \<longleftrightarrow> 4 \<le> n \<and> n < 8"
  "bit (0xF8 :: int) n \<longleftrightarrow> 3 \<le> n \<and> n < 8"
proof -
  have "(0xC0 :: int) = push_bit 6 (mask 2)" "(0xE0 :: int) = push_bit 5 (mask 3)"
    "(0xF0 :: int) = push_bit 4 (mask 4)" "(0xF8 :: int) = push_bit 3 (mask 5)"
    by (simp_all add: mask_eq_exp_minus_1)
  then show "bit (0xC0 :: int) n \<longleftrightarrow> 6 \<le> n \<and> n < 8" "bit (0xE0 :: int) n \<longleftrightarrow> 5 \<le> n \<and> n < 8"
    "bit (0xF0 :: int) n \<longleftrightarrow> 4 \<le> n \<and> n < 8" "bit (0xF8 :: int) n \<longleftrightarrow> 3 \<le> n \<and> n < 8"
    by (simp_all only: bit_push_bit_iff bit_mask_iff) auto
qed

lemma uint_less_bits:
  assumes "uint (c::'a::len word) < 2 ^ k" "bit c n"
  shows "n < k"
proof -
  have "take_bit k (uint c) = uint c" using assms(1) by (simp add: take_bit_int_eq_self)
  moreover have "bit (uint c) n" using assms(2) by (simp add: bit_uint_iff bit_imp_le_length)
  ultimately have "bit (take_bit k (uint c)) n" by simp
  then show ?thesis by (simp add: bit_take_bit_iff)
qed

lemma high_bit_not_ascii: "bit (b::byte) 7 \<Longrightarrow> \<not> b < 0x80"
  using uint_less_bits[of b 7 7] by (auto simp: word_less_def)

lemma low_byte_ascii:
  assumes "\<not> bit (b::byte) 7"
  shows "b < 0x80"
proof -
  have "take_bit 7 b = b"
  proof (rule bit_word_eqI)
    fix n assume "n < LENGTH(8)"
    then show "bit (take_bit 7 b) n = bit b n"
      using assms by (cases "n = 7") (auto simp: bit_simps)
  qed
  then have "uint b = take_bit 7 (uint b)" by (metis unsigned_take_bit_eq)
  also have "\<dots> < 2 ^ 7" by (rule take_bit_int_less_exp)
  finally show ?thesis by (simp add: word_less_def)
qed

lemma le_0x7F_bits: "(c::u32) \<le> 0x7F \<Longrightarrow> bit c n \<Longrightarrow> n < 7"
  using uint_less_bits[of c 7 n] by (simp add: word_le_def)

lemma le_0x7FF_bits: "(c::u32) \<le> 0x7FF \<Longrightarrow> bit c n \<Longrightarrow> n < 11"
  using uint_less_bits[of c 11 n] by (simp add: word_le_def)

lemma le_0xFFFF_bits: "(c::u32) \<le> 0xFFFF \<Longrightarrow> bit c n \<Longrightarrow> n < 16"
  using uint_less_bits[of c 16 n] by (simp add: word_le_def)

lemma le_0x10FFFF_bits: "(c::u32) \<le> 0x10FFFF \<Longrightarrow> bit c n \<Longrightarrow> n < 21"
  using uint_less_bits[of c 21 n] by (simp add: word_le_def)

subsection \<open>One encoded code point is decoded to itself\<close>

lemma ascii_byte: "(c::u32) \<le> 0x7F \<Longrightarrow> (ucast c :: byte) < 0x80"
  by (rule low_byte_ascii) (auto simp: bit_simps dest: le_0x7F_bits)

lemma ascii_back: "(c::u32) \<le> 0x7F \<Longrightarrow> (ucast (ucast c :: byte) :: u32) = c"
  by (rule bit_word_eqI) (auto simp: bit_simps dest: le_0x7F_bits)

lemma continuation_is_continuation:
  "isContinuationByte (ucast (0x80 OR ((x::u32) AND 0x3F)))"
  unfolding isContinuationByte_def
  by (rule bit_word_eqI) (auto simp: bit_simps)

lemma continuation_payload:
  "(ucast ((ucast (0x80 OR ((x::u32) AND 0x3F)) :: byte) AND 0x3F) :: u32) = x AND 0x3F"
  by (rule bit_word_eqI) (auto simp: bit_simps)

lemma lead_of_two:
  fixes x :: u32
  defines "b \<equiv> (ucast (0xC0 OR (x AND 0x1F)) :: byte)"
  shows "\<not> b < 0x80" "b AND 0xE0 = 0xC0" "(ucast (b AND 0x1F) :: u32) = x AND 0x1F"
proof -
  have "bit b 7" by (simp add: b_def bit_simps)
  then show "\<not> b < 0x80" by (rule high_bit_not_ascii)
  show "b AND 0xE0 = 0xC0"
    unfolding b_def by (rule bit_word_eqI) (auto simp: bit_simps)
  show "(ucast (b AND 0x1F) :: u32) = x AND 0x1F"
    unfolding b_def by (rule bit_word_eqI) (auto simp: bit_simps)
qed

lemma lead_of_three:
  fixes x :: u32
  defines "b \<equiv> (ucast (0xE0 OR (x AND 0x0F)) :: byte)"
  shows "\<not> b < 0x80" "b AND 0xE0 \<noteq> 0xC0" "b AND 0xF0 = 0xE0"
    "(ucast (b AND 0x0F) :: u32) = x AND 0x0F"
proof -
  have "bit b 7" by (simp add: b_def bit_simps)
  then show "\<not> b < 0x80" by (rule high_bit_not_ascii)
  have "bit (b AND 0xE0) 5" by (simp add: b_def bit_simps)
  moreover have "\<not> bit (0xC0 :: byte) 5" by (simp add: bit_simps)
  ultimately show "b AND 0xE0 \<noteq> 0xC0" by metis
  show "b AND 0xF0 = 0xE0"
    unfolding b_def by (rule bit_word_eqI) (auto simp: bit_simps)
  show "(ucast (b AND 0x0F) :: u32) = x AND 0x0F"
    unfolding b_def by (rule bit_word_eqI) (auto simp: bit_simps)
qed

lemma lead_of_four:
  fixes x :: u32
  defines "b \<equiv> (ucast (0xF0 OR (x AND 0x07)) :: byte)"
  shows "\<not> b < 0x80" "b AND 0xE0 \<noteq> 0xC0" "b AND 0xF0 \<noteq> 0xE0" "b AND 0xF8 = 0xF0"
    "(ucast (b AND 0x07) :: u32) = x AND 0x07"
proof -
  have "bit b 7" by (simp add: b_def bit_simps)
  then show "\<not> b < 0x80" by (rule high_bit_not_ascii)
  have "bit (b AND 0xE0) 5" by (simp add: b_def bit_simps)
  moreover have "\<not> bit (0xC0 :: byte) 5" by (simp add: bit_simps)
  ultimately show "b AND 0xE0 \<noteq> 0xC0" by metis
  have "bit (b AND 0xF0) 4" by (simp add: b_def bit_simps)
  moreover have "\<not> bit (0xE0 :: byte) 4" by (simp add: bit_simps)
  ultimately show "b AND 0xF0 \<noteq> 0xE0" by metis
  show "b AND 0xF8 = 0xF0"
    unfolding b_def by (rule bit_word_eqI) (auto simp: bit_simps)
  show "(ucast (b AND 0x07) :: u32) = x AND 0x07"
    unfolding b_def by (rule bit_word_eqI) (auto simp: bit_simps)
qed

lemma join_two:
  "(c::u32) \<le> 0x7FF \<Longrightarrow> push_bit 6 (drop_bit 6 c AND 0x1F) OR (c AND 0x3F) = c"
proof (rule bit_word_eqI)
  fix n assume "c \<le> 0x7FF" "n < LENGTH(32)"
  then show "bit (push_bit 6 (drop_bit 6 c AND 0x1F) OR (c AND 0x3F)) n = bit c n"
    by (simp only: bit_simps, cases "n < 6") (auto dest: le_0x7FF_bits)
qed

lemma join_three:
  "(c::u32) \<le> 0xFFFF \<Longrightarrow>
   push_bit 6 (push_bit 6 (drop_bit 12 c AND 0x0F) OR (drop_bit 6 c AND 0x3F))
     OR (c AND 0x3F) = c"
proof (rule bit_word_eqI)
  fix n assume "c \<le> 0xFFFF" "n < LENGTH(32)"
  then show "bit (push_bit 6 (push_bit 6 (drop_bit 12 c AND 0x0F) OR (drop_bit 6 c AND 0x3F))
                  OR (c AND 0x3F)) n = bit c n"
    by (simp only: bit_simps, cases "n < 6"; cases "n < 12") (auto dest: le_0xFFFF_bits)
qed

lemma join_four:
  "(c::u32) \<le> 0x10FFFF \<Longrightarrow>
   push_bit 6 (push_bit 6 (push_bit 6 (drop_bit 18 c AND 0x07) OR (drop_bit 12 c AND 0x3F))
                 OR (drop_bit 6 c AND 0x3F))
     OR (c AND 0x3F) = c"
proof (rule bit_word_eqI)
  fix n assume "c \<le> 0x10FFFF" "n < LENGTH(32)"
  then show "bit (push_bit 6 (push_bit 6 (push_bit 6 (drop_bit 18 c AND 0x07)
                    OR (drop_bit 12 c AND 0x3F)) OR (drop_bit 6 c AND 0x3F))
                  OR (c AND 0x3F)) n = bit c n"
    by (simp only: bit_simps, cases "n < 6"; cases "n < 12"; cases "n < 18")
       (auto dest: le_0x10FFFF_bits)
qed

lemma stringToCodes_loop_encodeCodepoint:
  assumes "c \<le> 0x10FFFF"
  shows "stringToCodes_loop (encodeCodepoint c @ rest) acc = stringToCodes_loop rest (acc @ [c])"
proof -
  consider (one) "c \<le> 0x7F" | (two) "\<not> c \<le> 0x7F" "c \<le> 0x7FF"
    | (three) "\<not> c \<le> 0x7F" "\<not> c \<le> 0x7FF" "c \<le> 0xFFFF"
    | (four) "\<not> c \<le> 0x7F" "\<not> c \<le> 0x7FF" "\<not> c \<le> 0xFFFF"
    by blast
  then show ?thesis
  proof cases
    case one
    then show ?thesis
      by (subst stringToCodes_loop.simps)
         (simp add: encodeCodepoint_def leadByte_def ascii_byte ascii_back)
  next
    case two
    then show ?thesis
      by (subst stringToCodes_loop.simps)
         (simp add: encodeCodepoint_def leadByte_def lead_of_two continuation_is_continuation
            continuation_payload join_two del: push_bit_and)
  next
    case three
    then show ?thesis
      by (subst stringToCodes_loop.simps)
         (simp add: encodeCodepoint_def leadByte_def lead_of_three continuation_is_continuation
            continuation_payload join_three del: push_bit_and push_bit_or)
  next
    case four
    with assms show ?thesis
      by (subst stringToCodes_loop.simps)
         (simp add: encodeCodepoint_def leadByte_def lead_of_four continuation_is_continuation
            continuation_payload join_four del: push_bit_and push_bit_or)
  qed
qed

subsection \<open>Decoding an encoded text\<close>

lemma encodeCodepoint_too_large: "\<not> c \<le> 0x10FFFF \<Longrightarrow> encodeCodepoint c = []"
  by (auto simp: encodeCodepoint_def word_le_def)

lemma encodeCodepoint_nonempty: "c \<le> 0x10FFFF \<Longrightarrow> encodeCodepoint c \<noteq> []"
  by (auto simp: encodeCodepoint_def)

lemma stringToCodes_loop_codesToString:
  "stringToCodes_loop (codesToString cs) acc = acc @ filter (\<lambda>c. c \<le> 0x10FFFF) cs"
proof (induction cs arbitrary: acc)
  case Nil
  show ?case by (subst stringToCodes_loop.simps) (simp add: codesToString_def)
next
  case (Cons c cs)
  have split: "codesToString (c # cs) = encodeCodepoint c @ codesToString cs"
    by (simp add: codesToString_def)
  show ?case
  proof (cases "c \<le> 0x10FFFF")
    case True
    then show ?thesis
      unfolding split by (simp add: stringToCodes_loop_encodeCodepoint Cons.IH)
  next
    case False
    then show ?thesis
      unfolding split by (simp add: encodeCodepoint_too_large Cons.IH)
  qed
qed

lemma stringToCodes_codesToString:
  "stringToCodes (codesToString cs) = filter (\<lambda>c. c \<le> 0x10FFFF) cs"
  by (simp add: stringToCodes_def stringToCodes_loop_codesToString)

lemma codesToString_filter:
  "codesToString (filter (\<lambda>c. c \<le> 0x10FFFF) cs) = codesToString cs"
  by (induction cs) (auto simp: codesToString_def encodeCodepoint_too_large)

subsection \<open>Case folding and word symbols\<close>

lemma uint_plus_32: "uint (c::u32) \<le> 0x10FFFF \<Longrightarrow> uint (c + 32) = uint c + 32"
  by (simp add: uint_word_ariths take_bit_int_eq_self)

lemma charToLower_idem: "charToLower (charToLower c) = charToLower c"
  unfolding charToLower_def
  by (auto simp: word_le_def uint_plus_32 word_uint_eq_iff)

lemma charToLower_range: "charToLower c \<le> 0x10FFFF \<longleftrightarrow> c \<le> 0x10FFFF"
  unfolding charToLower_def
  by (auto simp: word_le_def uint_plus_32 word_uint_eq_iff)

lemma charToLower_valid: "isValidSymbol c \<Longrightarrow> isValidSymbol (charToLower c)"
  unfolding charToLower_def isValidSymbol_def
  by (auto simp: word_le_def uint_plus_32 word_uint_eq_iff)

lemma isValidSymbol_range: "isValidSymbol c \<Longrightarrow> c \<le> 0x10FFFF"
  unfolding isValidSymbol_def by (auto simp: word_le_def)

subsection \<open>Tokens\<close>

text \<open>
  A collected token is a list of case-folded word symbols: every code point is a word
  symbol and is its own lower case. Used in proofs only.
\<close>

definition lowered_word :: "u32 list \<Rightarrow> bool" where
  "lowered_word cs \<longleftrightarrow> (\<forall>c \<in> set cs. isValidSymbol c \<and> charToLower c = c)"

lemma tokenize_loop_all_valid:
  "\<forall>c \<in> set cs. isValidSymbol c \<Longrightarrow>
   tokenize_loop cs cur toks =
     (if cur @ cs \<noteq> [] then toks @ [codesToString (cur @ map charToLower cs)] else toks)"
  by (induction cs arbitrary: cur) auto

lemma tokenize_loop_tokens:
  "lowered_word cur \<Longrightarrow> t \<in> set (tokenize_loop cs cur toks) \<Longrightarrow>
   t \<in> set toks \<or> (\<exists>xs. xs \<noteq> [] \<and> lowered_word xs \<and> t = codesToString xs)"
proof (induction cs arbitrary: cur toks)
  case Nil
  then show ?case by (auto split: if_splits)
next
  case (Cons c cs)
  show ?case
  proof (cases "isValidSymbol c")
    case True
    then have "lowered_word (cur @ [charToLower c])"
      using Cons.prems(1) by (auto simp: lowered_word_def charToLower_valid charToLower_idem)
    from Cons.IH[OF this, of toks] Cons.prems(2) True show ?thesis by simp
  next
    case False
    show ?thesis
    proof (cases "cur = []")
      case True
      with Cons.IH[OF Cons.prems(1), of toks] Cons.prems(2) False show ?thesis by simp
    next
      case ne: False
      have "lowered_word []" by (simp add: lowered_word_def)
      from Cons.IH[OF this, of "toks @ [codesToString cur]"] Cons.prems ne False
      show ?thesis by auto
    qed
  qed
qed

lemma lowered_word_roundtrip:
  assumes "lowered_word xs"
  shows "stringToCodes (codesToString xs) = xs"
proof -
  have "filter (\<lambda>c. c \<le> 0x10FFFF) xs = xs"
    using assms by (auto simp: lowered_word_def isValidSymbol_range filter_id_conv)
  then show ?thesis by (simp add: stringToCodes_codesToString)
qed

lemma lowered_word_nonempty:
  assumes "lowered_word xs" "xs \<noteq> []"
  shows "codesToString xs \<noteq> []"
  using assms
  by (cases xs)
     (auto simp: lowered_word_def codesToString_def encodeCodepoint_nonempty isValidSymbol_range)

lemma lowered_word_tokenize:
  assumes "lowered_word xs" "xs \<noteq> []"
  shows "tokenize (codesToString xs) = [codesToString xs]"
proof -
  have "map charToLower xs = xs" using assms(1) by (auto simp: lowered_word_def map_idI)
  moreover have "\<forall>c \<in> set xs. isValidSymbol c" using assms(1) by (simp add: lowered_word_def)
  ultimately show ?thesis
    using assms(2)
    by (simp add: tokenize_def lowered_word_roundtrip[OF assms(1)] tokenize_loop_all_valid)
qed

text \<open>
  Claim C9. For every input string \<open>s\<close>, every term that \<^verbatim>\<open>tokenize(s)\<close> emits is
  non-empty, decodes to a non-empty sequence of code points that are all word symbols
  (ASCII letters, ASCII digits, or U+0400..U+04FF), and is tokenized to exactly itself.
\<close>

theorem tokenize_terms:
  "\<forall>t \<in> set (tokenize s).
      t \<noteq> [] \<and> stringToCodes t \<noteq> [] \<and> (\<forall>c \<in> set (stringToCodes t). isValidSymbol c)
      \<and> tokenize t = [t]"
proof
  fix t assume "t \<in> set (tokenize s)"
  then have "t \<in> set (tokenize_loop (stringToCodes s) [] [])" by (simp add: tokenize_def)
  moreover have "lowered_word []" by (simp add: lowered_word_def)
  ultimately obtain xs where xs: "xs \<noteq> []" "lowered_word xs" "t = codesToString xs"
    using tokenize_loop_tokens[of "[]" t "stringToCodes s" "[]"] by auto
  show "t \<noteq> [] \<and> stringToCodes t \<noteq> [] \<and> (\<forall>c \<in> set (stringToCodes t). isValidSymbol c)
      \<and> tokenize t = [t]"
    using xs lowered_word_nonempty[OF xs(2,1)] lowered_word_roundtrip[OF xs(2)]
      lowered_word_tokenize[OF xs(2,1)]
    by (simp add: lowered_word_def)
qed

text \<open>The text \<^verbatim>\<open>Hi\<close>, a space, the Cyrillic capital U+0416 and a full stop.\<close>

theorem tokenize_terms_witness:
  "tokenize [0x48, 0x69, 0x20, 0xD0, 0x96, 0x2E] = [[0x68, 0x69], [0xD0, 0xB6]]
   \<and> stringToCodes [0xD0, 0xB6] = [0x436] \<and> isValidSymbol 0x436
   \<and> tokenize [0xD0, 0xB6] = [[0xD0, 0xB6]]"
  using tokenize_terms[of "[0x48, 0x69, 0x20, 0xD0, 0x96, 0x2E]"]
  by (simp add: tokenize_def stringToCodes_def stringToCodes_loop.simps leadByte_def
        isContinuationByte_def isValidSymbol_def charToLower_def codesToString_def
        encodeCodepoint_def)

subsection \<open>Case folding of a string\<close>

text \<open>
  Claim C10. On every byte string, well-formed UTF-8 or not, the first application of
  \<^verbatim>\<open>toLowerCase\<close> normalizes: the result decodes to exactly the case-folded code points
  that \<^verbatim>\<open>stringToCodes\<close> finds in the input (the bytes that do not decode are dropped, and
  so is a code point above \<^verbatim>\<open>0x10FFFF\<close>, which \<^verbatim>\<open>codesToString\<close> does not encode). A
  second application returns the same string. For the bytes \<^verbatim>\<open>41 FF D0 96 E0\<close> (the letter A, a byte that is no lead byte, the
  Cyrillic capital U+0416 and a lead byte at the end) the result is \<^verbatim>\<open>61 D0 B6\<close>, the
  letter a and U+0436.
\<close>

theorem toLowerCase_idempotent:
  "toLowerCase (toLowerCase s) = toLowerCase s
   \<and> stringToCodes (toLowerCase s)
        = filter (\<lambda>c. c \<le> 0x10FFFF) (map charToLower (stringToCodes s))
   \<and> toLowerCase [0x41, 0xFF, 0xD0, 0x96, 0xE0] = [0x61, 0xD0, 0xB6]"
proof -
  let ?ok = "\<lambda>c::u32. c \<le> 0x10FFFF"
  let ?cs = "map charToLower (stringToCodes s)"
  have "map charToLower (filter ?ok (map charToLower xs)) = filter ?ok (map charToLower xs)"
    for xs
    by (induction xs) (auto simp: charToLower_idem)
  then have "toLowerCase (toLowerCase s) = codesToString (filter ?ok ?cs)"
    by (simp add: toLowerCase_def stringToCodes_codesToString)
  then have idem: "toLowerCase (toLowerCase s) = toLowerCase s"
    by (simp add: codesToString_filter toLowerCase_def)
  have dec: "stringToCodes (toLowerCase s) = filter ?ok ?cs"
    by (simp add: toLowerCase_def stringToCodes_codesToString)
  have ex1: "toLowerCase [0x41, 0xFF, 0xD0, 0x96, 0xE0] = [0x61, 0xD0, 0xB6]"
    by code_simp
  from idem dec ex1 show ?thesis by (simp only: simp_thms)
qed

subsection \<open>A lead byte near the end of the input\<close>

text \<open>
  Claim C4 says that a truncated multi-byte sequence is skipped by one byte and decoding
  goes on. In \<^verbatim>\<open>stringToCodes\<close> a lead byte that is not of a lead form, and a lead byte
  followed by a byte that is not a continuation byte, are skipped so; but when the
  sequence announced by a lead byte would reach the end of the input the loop is left with
  \<^verbatim>\<open>break\<close>, and the bytes after the lead byte are never decoded. The lead byte
  \<^verbatim>\<open>0xE0\<close> followed by the letter \<^verbatim>\<open>a\<close> gives no code point and no token, while the
  same lead byte followed by \<^verbatim>\<open>ab\<close> gives the token \<^verbatim>\<open>ab\<close>.
\<close>

theorem stringToCodes_truncated_tail_dropped:
  "stringToCodes [0xE0, 0x61] = [] \<and> tokenize [0xE0, 0x61] = []
   \<and> tokenize [0x61] = [[0x61]]
   \<and> tokenize [0xE0, 0x61, 0x62] = [[0x61, 0x62]]"
  by (simp add: tokenize_def stringToCodes_def stringToCodes_loop.simps leadByte_def
        isContinuationByte_def isValidSymbol_def charToLower_def codesToString_def
        encodeCodepoint_def)

section \<open>search\_engine.hpp: the hash map\<close>

text \<open>
  \<^verbatim>\<open>CustomHashMap\<close> is an array of \<open>10000\<close> buckets, each a vector of key-value pairs. A
  map is kept here as the sequence its iterator yields: the buckets one after the other,
  each in insertion order. \<^verbatim>\<open>find\<close> returns the first pair with the key, \<^verbatim>\<open>insert\<close>
  overwrites the value of a key that is present and otherwise appends the pair to the
  key's bucket, which in the iteration sequence is the position behind the last pair whose
  bucket index is not larger. The hash function is a parameter of the operations.
\<close>

type_synonym ('k, 'v) hashmap = "('k \<times> 'v) list"

definition HASH_SIZE :: nat where
  "HASH_SIZE = 10000"

definition hm_find :: "('k, 'v) hashmap \<Rightarrow> 'k \<Rightarrow> 'v option" where
  "hm_find m key = map_of m key"

definition hm_insert :: "('k \<Rightarrow> nat) \<Rightarrow> ('k, 'v) hashmap \<Rightarrow> 'k \<Rightarrow> 'v \<Rightarrow> ('k, 'v) hashmap" where
  "hm_insert h m key v =
     (if key \<in> fst ` set m
      then map (\<lambda>p. if fst p = key then (key, v) else p) m
      else takeWhile (\<lambda>p. h (fst p) \<le> h key) m @ [(key, v)]
             @ dropWhile (\<lambda>p. h (fst p) \<le> h key) m)"

definition hm_size :: "('k, 'v) hashmap \<Rightarrow> nat" where
  "hm_size m = length m"

text \<open>
  The two \<^verbatim>\<open>Hasher\<close> overloads: a polynomial hash of the bytes in \<^verbatim>\<open>size_t\<close> (64-bit)
  arithmetic, and the absolute value of an \<^verbatim>\<open>int\<close>, both modulo the bucket count.
\<close>

definition hash_string :: "bytes \<Rightarrow> nat" where
  "hash_string key = unat (fold (\<lambda>c hash. hash * 31 + ucast c) key (0 :: 64 word)) mod HASH_SIZE"

definition hash_int :: "cint \<Rightarrow> nat" where
  "hash_int key = nat \<bar>sint key\<bar> mod HASH_SIZE"

section \<open>search\_engine.cpp: the engine\<close>

text \<open>
  The configuration and the members of \<^verbatim>\<open>SearchEngine\<close> that indexing, persistence and
  the queries use. Scores are \<^verbatim>\<open>double\<close> values; the model keeps them as real numbers
  and uses only their order. Files are a partial map from paths to contents, and a
  directory is the list of its entries' file names in enumeration order.
\<close>

record Config =
  dataDir :: bytes
  invIndexPath :: bytes
  docNamesPath :: bytes
  docLengthsPath :: bytes
  minTfIdfScore :: real
  topKResults :: nat

record SearchEngine =
  m_config :: Config
  m_invertedIndex :: "(bytes, bytes) hashmap"
  m_docNames :: "(cint, bytes) hashmap"
  m_docLengths :: "(cint, cint) hashmap"
  m_totalDocsCount :: int

text \<open>ASCII text as bytes, for the file names that the sources write as literals.\<close>

definition ascii :: "string \<Rightarrow> bytes" where
  "ascii s = map of_char s"

text \<open>
  The constructor that takes the data directory and the index directory (the dictionary
  path plays no part in what follows), with the default thresholds of \<^verbatim>\<open>Config\<close>.
\<close>

definition new_SearchEngine :: "bytes \<Rightarrow> bytes \<Rightarrow> SearchEngine" where
  "new_SearchEngine dataDirectory indexDir =
     \<lparr>m_config =
        \<lparr>dataDir = dataDirectory,
         invIndexPath = indexDir @ ascii ''/inverted_index.bin'',
         docNamesPath = indexDir @ ascii ''/doc_names.txt'',
         docLengthsPath = indexDir @ ascii ''/doc_lengths.txt'',
         minTfIdfScore = 0.05,
         topKResults = 10\<rparr>,
      m_invertedIndex = [], m_docNames = [], m_docLengths = [], m_totalDocsCount = 0\<rparr>"

record filesystem =
  files :: "bytes \<rightharpoonup> bytes"
  directories :: "bytes \<rightharpoonup> bytes list"

record BooleanQuery =
  requiredTerms :: "bytes list"
  excludedTerms :: "bytes list"
  optionalTerms :: "bytes list"

subsection \<open>Decimal output of integers\<close>

function nat_digits :: "nat \<Rightarrow> bytes" where
  "nat_digits n = (if n < 10 then [0x30 + of_nat n] else nat_digits (n div 10) @ [0x30 + of_nat (n mod 10)])"
  by pat_completeness auto
termination
  by (relation "measure id") auto

declare nat_digits.simps [simp del]

text \<open>\<^verbatim>\<open>std::to_string(int)\<close> and \<^verbatim>\<open>operator<<\<close> for an \<^verbatim>\<open>int\<close>.\<close>

definition to_string :: "cint \<Rightarrow> bytes" where
  "to_string v = (if sint v < 0 then 0x2D # nat_digits (nat (- sint v)) else nat_digits (nat (sint v)))"

subsection \<open>Boolean queries\<close>

text \<open>
  \<^verbatim>\<open>getDocumentsForTerm\<close>: the DocIds of the term's posting list as a \<^verbatim>\<open>std::set<int>\<close>, a
  finite set of integer values iterated in ascending order. An exception of the decoder
  is not caught.
\<close>

definition getDocumentsForTerm :: "SearchEngine \<Rightarrow> bytes \<Rightarrow> error + int set" where
  "getDocumentsForTerm e term =
     (case hm_find (m_invertedIndex e) term of
        None \<Rightarrow> Inr {}
      | Some data \<Rightarrow>
         (case decompressPostingList data of
            Inl err \<Rightarrow> Inl err
          | Inr postings \<Rightarrow> Inr (sint ` fst ` set postings)))"

definition getDocumentPath :: "SearchEngine \<Rightarrow> int \<Rightarrow> bytes" where
  "getDocumentPath e docId =
     (case hm_find (m_docNames e) (word_of_int docId) of
        None \<Rightarrow> dataDir (m_config e) @ ascii ''/'' @ to_string (word_of_int docId) @ ascii ''.txt''
      | Some name \<Rightarrow> dataDir (m_config e) @ ascii ''/'' @ name)"

text \<open>\<^verbatim>\<open>FileUtils::readFileContent\<close>: the empty string when the file cannot be opened.\<close>

definition readFileContent :: "filesystem \<Rightarrow> bytes \<Rightarrow> bytes" where
  "readFileContent fs filePath = (case files fs filePath of None \<Rightarrow> [] | Some content \<Rightarrow> content)"

definition verifyRequiredTermsInDocument ::
  "SearchEngine \<Rightarrow> filesystem \<Rightarrow> int \<Rightarrow> bytes list \<Rightarrow> bool" where
  "verifyRequiredTermsInDocument e fs docId terms =
     (let content = readFileContent fs (getDocumentPath e docId)
      in if content = [] then False
         else list_all (\<lambda>term. sublist term (toLowerCase content)) terms)"

text \<open>
  The loop over the required terms. \<open>None\<close> is the early \<^verbatim>\<open>return std::vector<int>()\<close>;
  otherwise the loop ends with the candidate set and the flag \<^verbatim>\<open>hasCandidates\<close>.
\<close>

fun requiredTerms_loop ::
  "SearchEngine \<Rightarrow> bytes list \<Rightarrow> int set \<Rightarrow> bool \<Rightarrow> error + (int set \<times> bool) option" where
  "requiredTerms_loop e [] candidateSet hasCandidates = Inr (Some (candidateSet, hasCandidates))"
| "requiredTerms_loop e (term # terms) candidateSet hasCandidates =
     (case getDocumentsForTerm e term of
        Inl err \<Rightarrow> Inl err
      | Inr termDocs \<Rightarrow>
          if termDocs = {} then Inr None
          else (let candidateSet' = (if \<not> hasCandidates then termDocs
                                     else candidateSet \<inter> termDocs)
                in if candidateSet' = {} then Inr None
                   else requiredTerms_loop e terms candidateSet' True))"

text \<open>The loops that insert the documents of the optional and of the excluded terms.\<close>

fun unionTerms_loop :: "SearchEngine \<Rightarrow> bytes list \<Rightarrow> int set \<Rightarrow> error + int set" where
  "unionTerms_loop e [] docs = Inr docs"
| "unionTerms_loop e (term # terms) docs =
     (case getDocumentsForTerm e term of
        Inl err \<Rightarrow> Inl err
      | Inr termDocs \<Rightarrow> unionTerms_loop e terms (docs \<union> termDocs))"

definition executeBooleanQuery ::
  "SearchEngine \<Rightarrow> filesystem \<Rightarrow> BooleanQuery \<Rightarrow> error + int list" where
  "executeBooleanQuery e fs query =
     (case (if requiredTerms query \<noteq> []
            then requiredTerms_loop e (requiredTerms query) {} False
            else Inr (Some ({}, False))) of
        Inl err \<Rightarrow> Inl err
      | Inr None \<Rightarrow> Inr []
      | Inr (Some (candidateSet, hasCandidates)) \<Rightarrow>
         (case (if requiredTerms query = [] \<and> optionalTerms query \<noteq> []
                then (case unionTerms_loop e (optionalTerms query) candidateSet of
                        Inl err \<Rightarrow> Inl err | Inr docs \<Rightarrow> Inr (docs, True))
                else Inr (candidateSet, hasCandidates)) of
            Inl err \<Rightarrow> Inl err
          | Inr (candidateSet, hasCandidates) \<Rightarrow>
              if \<not> hasCandidates then Inr []
              else (case (if excludedTerms query \<noteq> []
                          then (case unionTerms_loop e (excludedTerms query) {} of
                                  Inl err \<Rightarrow> Inl err
                                | Inr excludedDocs \<Rightarrow> Inr (candidateSet - excludedDocs))
                          else Inr candidateSet) of
                      Inl err \<Rightarrow> Inl err
                    | Inr candidateSet \<Rightarrow>
                        if requiredTerms query \<noteq> []
                        then Inr (filter (\<lambda>docId. verifyRequiredTermsInDocument e fs docId
                                                     (requiredTerms query))
                                    (sorted_list_of_set candidateSet))
                        else Inr (sorted_list_of_set candidateSet))))"

section \<open>Properties of the boolean query engine\<close>

text \<open>
  The DocId set of a term's posting list, and the index invariant that every stored
  posting list decodes (invariant 2 of the data model).
\<close>

definition postingDocIds :: "SearchEngine \<Rightarrow> bytes \<Rightarrow> int set" where
  "postingDocIds e term =
     (case getDocumentsForTerm e term of Inl err \<Rightarrow> {} | Inr docs \<Rightarrow> docs)"

definition index_decodes :: "SearchEngine \<Rightarrow> bool" where
  "index_decodes e \<longleftrightarrow>
     (\<forall>(term, data) \<in> set (m_invertedIndex e).
        \<exists>postings. decompressPostingList data = Inr postings)"

lemma getDocumentsForTerm_decodes:
  assumes "index_decodes e"
  shows "getDocumentsForTerm e t = Inr (postingDocIds e t)"
proof (cases "hm_find (m_invertedIndex e) t")
  case None
  then show ?thesis by (simp add: getDocumentsForTerm_def postingDocIds_def)
next
  case (Some data)
  then have "(t, data) \<in> set (m_invertedIndex e)"
    by (simp add: hm_find_def map_of_SomeD)
  with assms obtain ps where "decompressPostingList data = Inr ps"
    by (auto simp: index_decodes_def)
  with Some show ?thesis by (simp add: getDocumentsForTerm_def postingDocIds_def)
qed

lemma unionTerms_loop_result:
  assumes "index_decodes e"
  shows "unionTerms_loop e ts docs = Inr (docs \<union> (\<Union>t \<in> set ts. postingDocIds e t))"
  by (induction ts arbitrary: docs) (auto simp: getDocumentsForTerm_decodes[OF assms])

lemma requiredTerms_loop_result:
  assumes "index_decodes e" and "has \<longrightarrow> cand \<noteq> {}" and "ts \<noteq> [] \<or> has"
  shows "requiredTerms_loop e ts cand has =
           Inr (let I = (if has then cand else UNIV) \<inter> (\<Inter>t \<in> set ts. postingDocIds e t)
                in if I = {} then None else Some (I, True))"
  using assms(2,3)
proof (induction ts arbitrary: cand has)
  case Nil
  then show ?case by simp
next
  case (Cons t ts)
  let ?D = "postingDocIds e t"
  let ?c' = "if \<not> has then ?D else cand \<inter> ?D"
  show ?case
  proof (cases "?D = {} \<or> ?c' = {}")
    case True
    then have "(if has then cand else UNIV) \<inter> (\<Inter>t \<in> set (t # ts). postingDocIds e t) = {}"
      by (auto split: if_splits)
    then show ?thesis
      using True
      by (auto simp: getDocumentsForTerm_decodes[OF assms(1)] Let_def
            simp del: INT_simps Inter_iff)
  next
    case False
    then have ne: "?D \<noteq> {}" "?c' \<noteq> {}" by auto
    have IH: "requiredTerms_loop e ts ?c' True =
           Inr (let I = ?c' \<inter> (\<Inter>t \<in> set ts. postingDocIds e t)
                in if I = {} then None else Some (I, True))"
      using Cons.IH[of True ?c'] ne by simp
    have "(if has then cand else UNIV) \<inter> (\<Inter>t \<in> set (t # ts). postingDocIds e t)
            = ?c' \<inter> (\<Inter>t \<in> set ts. postingDocIds e t)"
      by auto
    then show ?thesis
      using ne IH by (simp add: getDocumentsForTerm_decodes[OF assms(1)] Let_def)
  qed
qed

text \<open>
  Claim C5. For every index state whose posting lists decode and every parsed query:
  with required terms the candidates are the intersection of the required terms' DocId
  sets (so a required term with an empty set gives the empty result), else with optional
  terms their union, else the result is empty; the union of the excluded terms' sets is
  subtracted; with required terms the candidates in ascending DocId order that pass the
  content check are returned, and without required terms the returned list is exactly the
  final candidate set in ascending DocId order.
\<close>

theorem executeBooleanQuery_result:
  assumes "index_decodes e"
  shows "executeBooleanQuery e fs q =
     Inr (if requiredTerms q \<noteq> [] then
            filter (\<lambda>docId. verifyRequiredTermsInDocument e fs docId (requiredTerms q))
              (sorted_list_of_set
                 ((\<Inter>t \<in> set (requiredTerms q). postingDocIds e t)
                    - (\<Union>t \<in> set (excludedTerms q). postingDocIds e t)))
          else if optionalTerms q \<noteq> [] then
            sorted_list_of_set
              ((\<Union>t \<in> set (optionalTerms q). postingDocIds e t)
                 - (\<Union>t \<in> set (excludedTerms q). postingDocIds e t))
          else [])"
proof (cases "requiredTerms q \<noteq> []")
  case True
  let ?I = "\<Inter>t \<in> set (requiredTerms q). postingDocIds e t"
  have r: "requiredTerms_loop e (requiredTerms q) {} False
             = Inr (if ?I = {} then None else Some (?I, True))"
    using requiredTerms_loop_result[OF assms, of False "{}" "requiredTerms q"] True
    by (simp add: Let_def)
  show ?thesis
  proof (cases "?I = {}")
    case True
    then show ?thesis using \<open>requiredTerms q \<noteq> []\<close> r by (simp add: executeBooleanQuery_def)
  next
    case False
    then show ?thesis
      using True r
      by (simp add: executeBooleanQuery_def unionTerms_loop_result[OF assms])
  qed
next
  case False
  then show ?thesis
    by (simp add: executeBooleanQuery_def unionTerms_loop_result[OF assms])
qed

subsection \<open>The five-document corpus of the end-to-end scenarios\<close>

text \<open>
  Documents 1 to 5 hold \<^verbatim>\<open>cat dog\<close>, \<^verbatim>\<open>cat cat dog\<close>, \<^verbatim>\<open>dog bird\<close>, \<^verbatim>\<open>cat bird\<close> and
  \<^verbatim>\<open>bird bird bird\<close>; \<open>scenario_engine\<close> is the state of the engine after the build.
\<close>

definition scenario_files :: filesystem where
  "scenario_files =
     \<lparr>files = [ascii ''d/1.txt'' \<mapsto> ascii ''cat dog'',
                ascii ''d/2.txt'' \<mapsto> ascii ''cat cat dog'',
                ascii ''d/3.txt'' \<mapsto> ascii ''dog bird'',
                ascii ''d/4.txt'' \<mapsto> ascii ''cat bird'',
                ascii ''d/5.txt'' \<mapsto> ascii ''bird bird bird''],
      directories = [ascii ''d'' \<mapsto>
        [ascii ''1.txt'', ascii ''2.txt'', ascii ''3.txt'', ascii ''4.txt'', ascii ''5.txt'']]\<rparr>"

definition scenario_config :: Config where
  "scenario_config = m_config (new_SearchEngine (ascii ''d'') (ascii ''i''))"

definition scenario_engine :: SearchEngine where
  "scenario_engine =
     \<lparr>m_config = scenario_config,
      m_invertedIndex =
        [(ascii ''bird'', [131, 129, 129, 129, 129, 131]),
         (ascii ''cat'', [129, 129, 129, 130, 130, 129]),
         (ascii ''dog'', [129, 129, 129, 129, 129, 129])],
      m_docNames = [(1, ascii ''1.txt''), (2, ascii ''2.txt''), (3, ascii ''3.txt''),
                    (4, ascii ''4.txt''), (5, ascii ''5.txt'')],
      m_docLengths = [(1, 2), (2, 3), (3, 2), (4, 2), (5, 3)],
      m_totalDocsCount = 5\<rparr>"

lemma scenario_engine_decodes: "index_decodes scenario_engine"
  by (simp add: index_decodes_def scenario_engine_def decompressPostingList_def
        decompressPostingList_loop.simps vbyteDecode_def vbyteDecode_loop.simps)

text \<open>Scenarios 3 and 4: \<^verbatim>\<open>+cat -bird\<close> gives documents 1 and 2, \<^verbatim>\<open>cat dog\<close> gives 1 to 4.\<close>

theorem executeBooleanQuery_result_witness:
  "index_decodes scenario_engine
   \<and> executeBooleanQuery scenario_engine scenario_files
        \<lparr>requiredTerms = [ascii ''cat''], excludedTerms = [ascii ''bird''], optionalTerms = []\<rparr>
       = Inr [1, 2]
   \<and> executeBooleanQuery scenario_engine scenario_files
        \<lparr>requiredTerms = [], excludedTerms = [], optionalTerms = [ascii ''cat'', ascii ''dog'']\<rparr>
       = Inr [1, 2, 3, 4]"
proof -
  let ?q1 = "\<lparr>requiredTerms = [ascii ''cat''], excludedTerms = [ascii ''bird''],
               optionalTerms = []\<rparr>"
  let ?q2 = "\<lparr>requiredTerms = [], excludedTerms = [],
               optionalTerms = [ascii ''cat'', ascii ''dog'']\<rparr>"
  let ?r1 = "if requiredTerms ?q1 \<noteq> [] then
            filter (\<lambda>docId. verifyRequiredTermsInDocument scenario_engine scenario_files docId
                       (requiredTerms ?q1))
              (sorted_list_of_set
                 ((\<Inter>t \<in> set (requiredTerms ?q1). postingDocIds scenario_engine t)
                    - (\<Union>t \<in> set (excludedTerms ?q1). postingDocIds scenario_engine t)))
          else if optionalTerms ?q1 \<noteq> [] then
            sorted_list_of_set
              ((\<Union>t \<in> set (optionalTerms ?q1). postingDocIds scenario_engine t)
                 - (\<Union>t \<in> set (excludedTerms ?q1). postingDocIds scenario_engine t))
          else []"
  let ?r2 = "if requiredTerms ?q2 \<noteq> [] then
            filter (\<lambda>docId. verifyRequiredTermsInDocument scenario_engine scenario_files docId
                       (requiredTerms ?q2))
              (sorted_list_of_set
                 ((\<Inter>t \<in> set (requiredTerms ?q2). postingDocIds scenario_engine t)
                    - (\<Union>t \<in> set (excludedTerms ?q2). postingDocIds scenario_engine t)))
          else if optionalTerms ?q2 \<noteq> [] then
            sorted_list_of_set
              ((\<Union>t \<in> set (optionalTerms ?q2). postingDocIds scenario_engine t)
                 - (\<Union>t \<in> set (excludedTerms ?q2). postingDocIds scenario_engine t))
          else []"
  have a1: "executeBooleanQuery scenario_engine scenario_files ?q1 = Inr ?r1"
    by (rule executeBooleanQuery_result[OF scenario_engine_decodes])
  have a2: "executeBooleanQuery scenario_engine scenario_files ?q2 = Inr ?r2"
    by (rule executeBooleanQuery_result[OF scenario_engine_decodes])
  have b1: "?r1 = [1, 2]" by code_simp
  have b2: "?r2 = [1, 2, 3, 4]" by code_simp
  show ?thesis
    using scenario_engine_decodes a1 a2 by (simp only: b1 b2)
qed

section \<open>Ranking\<close>

subsection \<open>std::sort\<close>

text \<open>
  \<^verbatim>\<open>rankDocuments\<close> sorts with \<^verbatim>\<open>std::sort\<close>. The order in which \<^verbatim>\<open>std::sort\<close> leaves
  elements that the comparator does not separate depends on the algorithm, so the
  implementation of the GNU C++ library (\<^verbatim>\<open>bits/stl_algo.h\<close> and \<^verbatim>\<open>bits/stl_heap.h\<close>) is
  followed function by function: an introspective sort, which partitions around the median
  of three elements down to ranges of at most 16 elements, falls back on a heap sort when
  the recursion gets too deep, and finishes with an insertion sort.

  A range \<^verbatim>\<open>[first, last)\<close> is the list of its elements, an iterator is its distance from
  \<^verbatim>\<open>first\<close>, and a function that writes to the range returns the new list. The heap
  functions test every position against the length of the heap. The loops that the
  library calls unguarded have no test for the end of the range; where such a loop would
  leave the range the result is \<open>None\<close>.
\<close>

subsection \<open>The heap functions of the library\<close>

text \<open>
  \<^verbatim>\<open>std::__push_heap\<close>: the value moves up from the hole while the parent of the hole is
  ordered before it and the hole is below \<^verbatim>\<open>topIndex\<close>.
\<close>

function push_heap :: "('a \<Rightarrow> 'a \<Rightarrow> bool) \<Rightarrow> 'a list \<Rightarrow> nat \<Rightarrow> nat \<Rightarrow> 'a \<Rightarrow> 'a list" where
  "push_heap cmp xs holeIndex topIndex val =
     (if holeIndex > topIndex \<and> cmp (xs ! ((holeIndex - 1) div 2)) val
      then push_heap cmp (xs[holeIndex := xs ! ((holeIndex - 1) div 2)])
             ((holeIndex - 1) div 2) topIndex val
      else xs[holeIndex := val])"
  by pat_completeness auto
termination
  by (relation "measure (\<lambda>(cmp, xs, holeIndex, topIndex, val). holeIndex)") auto

declare push_heap.simps [simp del]

text \<open>
  \<^verbatim>\<open>std::__adjust_heap\<close>. Its loop moves the hole down to the child that is not ordered
  before the other; \<^verbatim>\<open>holeIndex\<close> and \<^verbatim>\<open>secondChild\<close> are equal at every test of the loop
  and are one variable here. A last node with a single child is handled after the loop, and
  the value is pushed up from the hole.
\<close>

definition larger_child :: "('a \<Rightarrow> 'a \<Rightarrow> bool) \<Rightarrow> 'a list \<Rightarrow> nat \<Rightarrow> nat" where
  "larger_child cmp xs secondChild =
     (if cmp (xs ! (2 * (secondChild + 1))) (xs ! (2 * (secondChild + 1) - 1))
      then 2 * (secondChild + 1) - 1
      else 2 * (secondChild + 1))"

function adjust_heap_loop :: "('a \<Rightarrow> 'a \<Rightarrow> bool) \<Rightarrow> 'a list \<Rightarrow> nat \<Rightarrow> nat \<Rightarrow> 'a list \<times> nat" where
  "adjust_heap_loop cmp xs secondChild len =
     (if secondChild < (len - 1) div 2
      then adjust_heap_loop cmp (xs[secondChild := xs ! larger_child cmp xs secondChild])
             (larger_child cmp xs secondChild) len
      else (xs, secondChild))"
  by pat_completeness auto
termination
  by (relation "measure (\<lambda>(cmp, xs, secondChild, len). len - secondChild)")
     (auto simp: larger_child_def)

declare adjust_heap_loop.simps [simp del]

definition adjust_heap :: "('a \<Rightarrow> 'a \<Rightarrow> bool) \<Rightarrow> 'a list \<Rightarrow> nat \<Rightarrow> nat \<Rightarrow> 'a \<Rightarrow> 'a list" where
  "adjust_heap cmp xs holeIndex len val =
     (case adjust_heap_loop cmp xs holeIndex len of
        (ys, secondChild) \<Rightarrow>
          if even len \<and> secondChild = (len - 2) div 2
          then push_heap cmp (ys[secondChild := ys ! (2 * (secondChild + 1) - 1)])
                 (2 * (secondChild + 1) - 1) holeIndex val
          else push_heap cmp ys secondChild holeIndex val)"

text \<open>
  \<^verbatim>\<open>std::__pop_heap\<close>, \<^verbatim>\<open>std::__make_heap\<close> and \<^verbatim>\<open>std::__sort_heap\<close> on the range that
  begins at position 0 and ends before \<open>last'\<close>.
\<close>

definition pop_heap :: "('a \<Rightarrow> 'a \<Rightarrow> bool) \<Rightarrow> 'a list \<Rightarrow> nat \<Rightarrow> nat \<Rightarrow> 'a list" where
  "pop_heap cmp xs last' result = adjust_heap cmp (xs[result := xs ! 0]) 0 last' (xs ! result)"

fun make_heap_loop :: "('a \<Rightarrow> 'a \<Rightarrow> bool) \<Rightarrow> 'a list \<Rightarrow> nat \<Rightarrow> nat \<Rightarrow> 'a list" where
  "make_heap_loop cmp xs 0 len = adjust_heap cmp xs 0 len (xs ! 0)"
| "make_heap_loop cmp xs (Suc parent) len =
     make_heap_loop cmp (adjust_heap cmp xs (Suc parent) len (xs ! Suc parent)) parent len"

definition make_heap :: "('a \<Rightarrow> 'a \<Rightarrow> bool) \<Rightarrow> 'a list \<Rightarrow> nat \<Rightarrow> 'a list" where
  "make_heap cmp xs last' = (if last' < 2 then xs else make_heap_loop cmp xs ((last' - 2) div 2) last')"

function sort_heap :: "('a \<Rightarrow> 'a \<Rightarrow> bool) \<Rightarrow> 'a list \<Rightarrow> nat \<Rightarrow> 'a list" where
  "sort_heap cmp xs last' =
     (if last' > 1 then sort_heap cmp (pop_heap cmp xs (last' - 1) (last' - 1)) (last' - 1)
      else xs)"
  by pat_completeness auto
termination
  by (relation "measure (\<lambda>(cmp, xs, last'). last')") auto

declare sort_heap.simps [simp del]

subsection \<open>The sorting functions of the library\<close>

text \<open>
  \<^verbatim>\<open>std::__heap_select\<close> and \<^verbatim>\<open>std::__partial_sort\<close>; the sort calls the latter with
  \<^verbatim>\<open>middle = last\<close>, as a heap sort of the range.
\<close>

function heap_select_loop ::
  "('a \<Rightarrow> 'a \<Rightarrow> bool) \<Rightarrow> 'a list \<Rightarrow> nat \<Rightarrow> nat \<Rightarrow> nat \<Rightarrow> 'a list" where
  "heap_select_loop cmp xs middle i last' =
     (if i < last'
      then heap_select_loop cmp (if cmp (xs ! i) (xs ! 0) then pop_heap cmp xs middle i else xs)
             middle (i + 1) last'
      else xs)"
  by pat_completeness auto
termination
  by (relation "measure (\<lambda>(cmp, xs, middle, i, last'). last' - i)") auto

declare heap_select_loop.simps [simp del]

definition heap_select :: "('a \<Rightarrow> 'a \<Rightarrow> bool) \<Rightarrow> 'a list \<Rightarrow> nat \<Rightarrow> nat \<Rightarrow> 'a list" where
  "heap_select cmp xs middle last' = heap_select_loop cmp (make_heap cmp xs middle) middle middle last'"

definition partial_sort :: "('a \<Rightarrow> 'a \<Rightarrow> bool) \<Rightarrow> 'a list \<Rightarrow> nat \<Rightarrow> nat \<Rightarrow> 'a list" where
  "partial_sort cmp xs middle last' = sort_heap cmp (heap_select cmp xs middle last') middle"

text \<open>
  \<^verbatim>\<open>std::iter_swap\<close> and \<^verbatim>\<open>std::__move_median_to_first\<close>.
\<close>

definition iter_swap :: "'a list \<Rightarrow> nat \<Rightarrow> nat \<Rightarrow> 'a list" where
  "iter_swap xs a b = xs[a := xs ! b, b := xs ! a]"

definition move_median_to_first ::
  "('a \<Rightarrow> 'a \<Rightarrow> bool) \<Rightarrow> 'a list \<Rightarrow> nat \<Rightarrow> nat \<Rightarrow> nat \<Rightarrow> nat \<Rightarrow> 'a list" where
  "move_median_to_first cmp xs result a b c =
     (if cmp (xs ! a) (xs ! b)
      then (if cmp (xs ! b) (xs ! c) then iter_swap xs result b
            else if cmp (xs ! a) (xs ! c) then iter_swap xs result c
            else iter_swap xs result a)
      else if cmp (xs ! a) (xs ! c) then iter_swap xs result a
      else if cmp (xs ! b) (xs ! c) then iter_swap xs result c
      else iter_swap xs result b)"

text \<open>
  \<^verbatim>\<open>std::__unguarded_partition\<close>. Its two inner loops are the first two functions: the
  first moves \<^verbatim>\<open>first\<close> up while the element is ordered before the pivot, the second moves
  \<^verbatim>\<open>last\<close> down while the pivot is ordered before the element. Neither loop tests for the
  end of the range.
\<close>

function unguarded_partition_up :: "('a \<Rightarrow> 'a \<Rightarrow> bool) \<Rightarrow> 'a list \<Rightarrow> nat \<Rightarrow> nat \<Rightarrow> nat option" where
  "unguarded_partition_up cmp xs first pivot =
     (if length xs \<le> first then None
      else if cmp (xs ! first) (xs ! pivot) then unguarded_partition_up cmp xs (first + 1) pivot
      else Some first)"
  by pat_completeness auto
termination
  by (relation "measure (\<lambda>(cmp, xs, first, pivot). length xs - first)") auto

declare unguarded_partition_up.simps [simp del]

function unguarded_partition_down :: "('a \<Rightarrow> 'a \<Rightarrow> bool) \<Rightarrow> 'a list \<Rightarrow> nat \<Rightarrow> nat \<Rightarrow> nat option" where
  "unguarded_partition_down cmp xs last' pivot =
     (if cmp (xs ! pivot) (xs ! last')
      then (if last' = 0 then None else unguarded_partition_down cmp xs (last' - 1) pivot)
      else Some last')"
  by pat_completeness auto
termination
  by (relation "measure (\<lambda>(cmp, xs, last', pivot). last')") auto

declare unguarded_partition_down.simps [simp del]

lemma unguarded_partition_down_le:
  "unguarded_partition_down cmp xs l p = Some l' \<Longrightarrow> l' \<le> l"
proof (induction cmp xs l p rule: unguarded_partition_down.induct)
  case (1 cmp xs l p)
  then show ?case
    by (subst (asm) (2) unguarded_partition_down.simps) (auto split: if_splits)
qed

function unguarded_partition ::
  "('a \<Rightarrow> 'a \<Rightarrow> bool) \<Rightarrow> 'a list \<Rightarrow> nat \<Rightarrow> nat \<Rightarrow> nat \<Rightarrow> ('a list \<times> nat) option" where
  "unguarded_partition cmp xs first last' pivot =
     (case unguarded_partition_up cmp xs first pivot of
        None \<Rightarrow> None
      | Some first' \<Rightarrow>
          if last' = 0 then None
          else (case unguarded_partition_down cmp xs (last' - 1) pivot of
                  None \<Rightarrow> None
                | Some last'' \<Rightarrow>
                    if \<not> first' < last'' then Some (xs, first')
                    else unguarded_partition cmp (iter_swap xs first' last'') (first' + 1) last''
                           pivot))"
  by pat_completeness auto
termination
  apply (relation "measure (\<lambda>(cmp, xs, first, last', pivot). last')")
   apply simp
  apply (auto dest: unguarded_partition_down_le)
  done

declare unguarded_partition.simps [simp del]

text \<open>
  \<^verbatim>\<open>std::__unguarded_partition_pivot\<close> and \<^verbatim>\<open>std::__introsort_loop\<close>. The loop sorts the
  part from the cut on by a recursive call and goes on with the part before the cut; the
  two parts do not overlap, and the result is the two results one after the other. A
  range of at most 16 elements is left as it is.
\<close>

definition unguarded_partition_pivot ::
  "('a \<Rightarrow> 'a \<Rightarrow> bool) \<Rightarrow> 'a list \<Rightarrow> ('a list \<times> nat) option" where
  "unguarded_partition_pivot cmp xs =
     unguarded_partition cmp
       (move_median_to_first cmp xs 0 1 (length xs div 2) (length xs - 1)) 1 (length xs) 0"

function introsort_loop :: "('a \<Rightarrow> 'a \<Rightarrow> bool) \<Rightarrow> 'a list \<Rightarrow> nat \<Rightarrow> 'a list option" where
  "introsort_loop cmp xs depth_limit =
     (if length xs > 16
      then (if depth_limit = 0 then Some (partial_sort cmp xs (length xs) (length xs))
            else (case unguarded_partition_pivot cmp xs of
                    None \<Rightarrow> None
                  | Some (ys, cut') \<Rightarrow>
                      (case introsort_loop cmp (drop cut' ys) (depth_limit - 1) of
                         None \<Rightarrow> None
                       | Some right \<Rightarrow>
                           (case introsort_loop cmp (take cut' ys) (depth_limit - 1) of
                              None \<Rightarrow> None
                            | Some left \<Rightarrow> Some (left @ right)))))
      else Some xs)"
  by pat_completeness auto
termination
  by (relation "measure (\<lambda>(cmp, xs, depth_limit). depth_limit)") auto

declare introsort_loop.simps [simp del]

text \<open>
  \<^verbatim>\<open>std::__unguarded_linear_insert\<close>, \<^verbatim>\<open>std::__insertion_sort\<close>,
  \<^verbatim>\<open>std::__unguarded_insertion_sort\<close> and \<^verbatim>\<open>std::__final_insertion_sort\<close>. The first has
  no test for the beginning of the range. In the second, \<^verbatim>\<open>std::move_backward\<close> followed by
  the assignment to \<^verbatim>\<open>*first\<close> puts the element at \<open>i\<close> in front of the elements before it.
\<close>

function unguarded_linear_insert_loop ::
  "('a \<Rightarrow> 'a \<Rightarrow> bool) \<Rightarrow> 'a list \<Rightarrow> 'a \<Rightarrow> nat \<Rightarrow> 'a list option" where
  "unguarded_linear_insert_loop cmp xs val last' =
     (if last' = 0 then None
      else if cmp val (xs ! (last' - 1))
        then unguarded_linear_insert_loop cmp (xs[last' := xs ! (last' - 1)]) val (last' - 1)
        else Some (xs[last' := val]))"
  by pat_completeness auto
termination
  by (relation "measure (\<lambda>(cmp, xs, val, last'). last')") auto

declare unguarded_linear_insert_loop.simps [simp del]

definition unguarded_linear_insert :: "('a \<Rightarrow> 'a \<Rightarrow> bool) \<Rightarrow> 'a list \<Rightarrow> nat \<Rightarrow> 'a list option" where
  "unguarded_linear_insert cmp xs last' = unguarded_linear_insert_loop cmp xs (xs ! last') last'"

function insertion_sort_loop ::
  "('a \<Rightarrow> 'a \<Rightarrow> bool) \<Rightarrow> 'a list \<Rightarrow> nat \<Rightarrow> nat \<Rightarrow> 'a list option" where
  "insertion_sort_loop cmp xs i last' =
     (if i < last'
      then (if cmp (xs ! i) (xs ! 0)
            then insertion_sort_loop cmp (xs ! i # take i xs @ drop (i + 1) xs) (i + 1) last'
            else (case unguarded_linear_insert cmp xs i of
                    None \<Rightarrow> None
                  | Some ys \<Rightarrow> insertion_sort_loop cmp ys (i + 1) last'))
      else Some xs)"
  by pat_completeness auto
termination
  by (relation "measure (\<lambda>(cmp, xs, i, last'). last' - i)") auto

declare insertion_sort_loop.simps [simp del]

definition insertion_sort :: "('a \<Rightarrow> 'a \<Rightarrow> bool) \<Rightarrow> 'a list \<Rightarrow> nat \<Rightarrow> 'a list option" where
  "insertion_sort cmp xs last' = (if last' = 0 then Some xs else insertion_sort_loop cmp xs 1 last')"

function unguarded_insertion_sort ::
  "('a \<Rightarrow> 'a \<Rightarrow> bool) \<Rightarrow> 'a list \<Rightarrow> nat \<Rightarrow> nat \<Rightarrow> 'a list option" where
  "unguarded_insertion_sort cmp xs i last' =
     (if i < last'
      then (case unguarded_linear_insert cmp xs i of
              None \<Rightarrow> None
            | Some ys \<Rightarrow> unguarded_insertion_sort cmp ys (i + 1) last')
      else Some xs)"
  by pat_completeness auto
termination
  by (relation "measure (\<lambda>(cmp, xs, i, last'). last' - i)") auto

declare unguarded_insertion_sort.simps [simp del]

definition final_insertion_sort :: "('a \<Rightarrow> 'a \<Rightarrow> bool) \<Rightarrow> 'a list \<Rightarrow> 'a list option" where
  "final_insertion_sort cmp xs =
     (if length xs > 16
      then (case insertion_sort cmp xs 16 of
              None \<Rightarrow> None
            | Some ys \<Rightarrow> unguarded_insertion_sort cmp ys 16 (length xs))
      else insertion_sort cmp xs (length xs))"

text \<open>
  \<^verbatim>\<open>std::__lg\<close> is the binary logarithm rounded down, and \<^verbatim>\<open>std::sort\<close> is the function
  \<^verbatim>\<open>std::__sort\<close>.
\<close>

fun lg :: "nat \<Rightarrow> nat" where
  "lg n = (if n < 2 then 0 else 1 + lg (n div 2))"

declare lg.simps [simp del]

definition std_sort :: "('a \<Rightarrow> 'a \<Rightarrow> bool) \<Rightarrow> 'a list \<Rightarrow> 'a list option" where
  "std_sort cmp xs =
     (if xs = [] then Some xs
      else (case introsort_loop cmp xs (lg (length xs) * 2) of
              None \<Rightarrow> None
            | Some ys \<Rightarrow> final_insertion_sort cmp ys))"

subsection \<open>The heap sort sorts\<close>

text \<open>
  The comparators considered order the elements by a key: \<open>\<lambda>a b. k a < k b\<close>. The range of
  length \<open>len\<close> is a heap from position \<open>p\<close> on when no element whose parent is at \<open>p\<close> or
  later has a greater key than its parent. \<open>heap_below p h\<close> says that position \<open>h\<close> is \<open>p\<close>
  or lies below \<open>p\<close> in the tree, and \<open>hole_inv\<close> is the heap property around a hole at \<open>h\<close>:
  it holds between all elements other than the hole, and the children of the hole are not
  greater than its parent.
\<close>

definition heap_from :: "('a \<Rightarrow> 'b::linorder) \<Rightarrow> 'a list \<Rightarrow> nat \<Rightarrow> nat \<Rightarrow> bool" where
  "heap_from k xs p len \<longleftrightarrow>
     (\<forall>i. 0 < i \<and> i < len \<and> p \<le> (i - 1) div 2 \<longrightarrow> k (xs ! i) \<le> k (xs ! ((i - 1) div 2)))"

inductive heap_below :: "nat \<Rightarrow> nat \<Rightarrow> bool" where
  heap_below_refl: "heap_below p p"
| heap_below_child: "heap_below p h \<Longrightarrow> 0 < c \<Longrightarrow> (c - 1) div 2 = h \<Longrightarrow> heap_below p c"

lemma heap_below_le: "heap_below p h \<Longrightarrow> p \<le> h"
  by (induction rule: heap_below.induct) auto

lemma heap_below_parent: "heap_below p h \<Longrightarrow> h \<noteq> p \<Longrightarrow> heap_below p ((h - 1) div 2) \<and> 0 < h"
  by (cases rule: heap_below.cases) auto

definition hole_inv :: "('a \<Rightarrow> 'b::linorder) \<Rightarrow> 'a list \<Rightarrow> nat \<Rightarrow> nat \<Rightarrow> nat \<Rightarrow> bool" where
  "hole_inv k xs p h len \<longleftrightarrow>
     heap_below p h \<and> h < len
     \<and> (\<forall>i. 0 < i \<and> i < len \<and> p \<le> (i - 1) div 2 \<and> i \<noteq> h \<and> (i - 1) div 2 \<noteq> h
            \<longrightarrow> k (xs ! i) \<le> k (xs ! ((i - 1) div 2)))
     \<and> (h \<noteq> p \<longrightarrow> (\<forall>c. 0 < c \<and> c < len \<and> (c - 1) div 2 = h
            \<longrightarrow> k (xs ! c) \<le> k (xs ! ((h - 1) div 2))))"

lemma parent_less: "0 < i \<Longrightarrow> (i - 1) div 2 < (i::nat)"
  by auto

lemma mset_move_hole:
  assumes "h \<noteq> c" "h < length xs" "c < length xs"
  shows "mset (xs[h := xs ! c, c := v]) = mset (xs[h := v])"
  using assms by (simp add: mset_update)

lemma push_heap_heap:
  fixes k :: "'a \<Rightarrow> 'b::linorder"
  assumes "hole_inv k xs p h len" "len \<le> length xs"
    "\<forall>c. 0 < c \<and> c < len \<and> (c - 1) div 2 = h \<longrightarrow> k (xs ! c) \<le> k v"
  shows "heap_from k (push_heap (\<lambda>a b. k a < k b) xs h p v) p len
         \<and> mset (push_heap (\<lambda>a b. k a < k b) xs h p v) = mset (xs[h := v])
         \<and> drop len (push_heap (\<lambda>a b. k a < k b) xs h p v) = drop len xs"
  using assms
proof (induction h arbitrary: xs rule: less_induct)
  case (less h)
  note inv = less.prems(1)[unfolded hole_inv_def]
  have below: "heap_below p h" and hl: "h < len" using inv by auto
  have ph: "p \<le> h" using below by (rule heap_below_le)
  have edges: "\<And>i. 0 < i \<Longrightarrow> i < len \<Longrightarrow> p \<le> (i - 1) div 2 \<Longrightarrow> i \<noteq> h \<Longrightarrow> (i - 1) div 2 \<noteq> h
            \<Longrightarrow> k (xs ! i) \<le> k (xs ! ((i - 1) div 2))"
    using inv by blast
  have grand: "\<And>c. h \<noteq> p \<Longrightarrow> 0 < c \<Longrightarrow> c < len \<Longrightarrow> (c - 1) div 2 = h
            \<Longrightarrow> k (xs ! c) \<le> k (xs ! ((h - 1) div 2))"
    using inv by blast
  have kids: "\<And>c. 0 < c \<Longrightarrow> c < len \<Longrightarrow> (c - 1) div 2 = h \<Longrightarrow> k (xs ! c) \<le> k v"
    using less.prems(3) by blast
  let ?q = "(h - 1) div 2"
  show ?case
  proof (cases "p < h \<and> k (xs ! ?q) < k v")
    case False
    have r: "push_heap (\<lambda>a b. k a < k b) xs h p v = xs[h := v]"
      using False by (subst push_heap.simps) auto
    have "heap_from k (xs[h := v]) p len"
      unfolding heap_from_def
    proof (intro allI impI)
      fix i assume i: "0 < i \<and> i < len \<and> p \<le> (i - 1) div 2"
      have il: "i < length xs" "(i - 1) div 2 < length xs" "h < length xs" "(i - 1) div 2 \<noteq> i"
        using i hl less.prems(2) parent_less[of i] by auto
      show "k (xs[h := v] ! i) \<le> k (xs[h := v] ! ((i - 1) div 2))"
      proof (cases "i = h")
        case True
        then have "p < h" using i ph by (cases "p = h") auto
        then have "k v \<le> k (xs ! ?q)" using False by auto
        then show ?thesis using True il i by simp
      next
        case ih: False
        show ?thesis
        proof (cases "(i - 1) div 2 = h")
          case True
          then show ?thesis using kids[of i] i ih il by simp
        next
          case False
          then show ?thesis using edges[of i] i ih il by simp
        qed
      qed
    qed
    then show ?thesis using r hl by simp
  next
    case True
    let ?xs' = "xs[h := xs ! ?q]"
    have hp: "h \<noteq> p" "0 < h" using True by auto
    have qb: "heap_below p ?q" using heap_below_parent[OF below hp(1)] by simp
    have pq: "p \<le> ?q" using qb by (rule heap_below_le)
    have qh: "?q < h" using hp(2) by auto
    have ll: "h < length xs" "?q < length xs" using hl qh less.prems(2) by auto
    have qv: "k (xs ! ?q) \<le> k v" using True by auto
    have inv': "hole_inv k ?xs' p ?q len"
      unfolding hole_inv_def
    proof (intro conjI allI impI)
      show "heap_below p ?q" by (rule qb)
      show "?q < len" using qh hl by simp
    next
      fix i assume i: "0 < i \<and> i < len \<and> p \<le> (i - 1) div 2 \<and> i \<noteq> ?q \<and> (i - 1) div 2 \<noteq> ?q"
      have ih: "i \<noteq> h" using i by auto
      show "k (?xs' ! i) \<le> k (?xs' ! ((i - 1) div 2))"
      proof (cases "(i - 1) div 2 = h")
        case True
        then show ?thesis using grand[of i] i hp ih ll by simp
      next
        case False
        then show ?thesis using edges[of i] i ih ll by simp
      qed
    next
      fix c assume q: "?q \<noteq> p" and c: "0 < c \<and> c < len \<and> (c - 1) div 2 = ?q"
      have q0: "0 < ?q" using q pq by auto
      have pqq: "p \<le> (?q - 1) div 2"
        using heap_below_parent[OF qb q] heap_below_le by blast
      have qq: "(?q - 1) div 2 \<noteq> h" using qh by simp
      have e1: "k (xs ! ?q) \<le> k (xs ! ((?q - 1) div 2))"
        using edges[of ?q] q0 qh hl pqq qq by simp
      show "k (?xs' ! c) \<le> k (?xs' ! ((?q - 1) div 2))"
      proof (cases "c = h")
        case True
        then show ?thesis using e1 ll qq by simp
      next
        case False
        have "k (xs ! c) \<le> k (xs ! ?q)" using edges[of c] c False pq qh by simp
        then show ?thesis using e1 False qq ll by simp
      qed
    qed
    have kids': "\<forall>c. 0 < c \<and> c < len \<and> (c - 1) div 2 = ?q \<longrightarrow> k (?xs' ! c) \<le> k v"
    proof (intro allI impI)
      fix c assume c: "0 < c \<and> c < len \<and> (c - 1) div 2 = ?q"
      show "k (?xs' ! c) \<le> k v"
      proof (cases "c = h")
        case True
        then show ?thesis using qv ll by simp
      next
        case False
        have "k (xs ! c) \<le> k (xs ! ?q)" using edges[of c] c False pq qh by simp
        then show ?thesis using qv False ll by simp
      qed
    qed
    have len': "len \<le> length ?xs'" using less.prems(2) by simp
    from less.IH[OF qh inv' len' kids']
    have IH: "heap_from k (push_heap (\<lambda>a b. k a < k b) ?xs' ?q p v) p len"
      "mset (push_heap (\<lambda>a b. k a < k b) ?xs' ?q p v) = mset (?xs'[?q := v])"
      "drop len (push_heap (\<lambda>a b. k a < k b) ?xs' ?q p v) = drop len ?xs'"
      by auto
    have r: "push_heap (\<lambda>a b. k a < k b) xs h p v = push_heap (\<lambda>a b. k a < k b) ?xs' ?q p v"
      using True by (subst push_heap.simps) auto
    have "mset (?xs'[?q := v]) = mset (xs[h := v])"
      using mset_move_hole[of h ?q xs v] qh ll by simp
    then show ?thesis using IH r hl by simp
  qed
qed


lemma hole_inv_step:
  fixes k :: "'a \<Rightarrow> 'b::linorder"
  assumes "hole_inv k xs p h len" "len \<le> length xs" "0 < c" "c < len" "(c - 1) div 2 = h"
    "\<forall>d. 0 < d \<and> d < len \<and> (d - 1) div 2 = h \<longrightarrow> k (xs ! d) \<le> k (xs ! c)"
  shows "hole_inv k (xs[h := xs ! c]) p c len"
proof -
  note inv = assms(1)[unfolded hole_inv_def]
  have below: "heap_below p h" and hl: "h < len" using inv by auto
  have ph: "p \<le> h" using below by (rule heap_below_le)
  have edges: "\<And>i. 0 < i \<Longrightarrow> i < len \<Longrightarrow> p \<le> (i - 1) div 2 \<Longrightarrow> i \<noteq> h \<Longrightarrow> (i - 1) div 2 \<noteq> h
            \<Longrightarrow> k (xs ! i) \<le> k (xs ! ((i - 1) div 2))"
    using inv by blast
  have grand: "\<And>c. h \<noteq> p \<Longrightarrow> 0 < c \<Longrightarrow> c < len \<Longrightarrow> (c - 1) div 2 = h
            \<Longrightarrow> k (xs ! c) \<le> k (xs ! ((h - 1) div 2))"
    using inv by blast
  have hc: "h < c" using parent_less[OF assms(3)] assms(5) by simp
  have ll: "h < length xs" "c < length xs" using hl assms(2,4) by auto
  let ?xs' = "xs[h := xs ! c]"
  show ?thesis
    unfolding hole_inv_def
  proof (intro conjI allI impI)
    show "heap_below p c" using below assms(3,5) by (rule heap_below_child)
    show "c < len" by (rule assms(4))
  next
    fix i assume i: "0 < i \<and> i < len \<and> p \<le> (i - 1) div 2 \<and> i \<noteq> c \<and> (i - 1) div 2 \<noteq> c"
    have pl: "(i - 1) div 2 < i" using parent_less[of i] i by simp
    show "k (?xs' ! i) \<le> k (?xs' ! ((i - 1) div 2))"
    proof (cases "i = h")
      case True
      then have "h \<noteq> p" using i pl ph by auto
      then have "k (xs ! c) \<le> k (xs ! ((h - 1) div 2))" using grand[of c] assms(3,4,5) by simp
      then show ?thesis using True ll pl by simp
    next
      case ih: False
      show ?thesis
      proof (cases "(i - 1) div 2 = h")
        case True
        then have "k (xs ! i) \<le> k (xs ! c)" using assms(6) i by simp
        then show ?thesis using True ih ll by simp
      next
        case False
        then show ?thesis using edges[of i] i ih ll by simp
      qed
    qed
  next
    fix d assume d: "0 < d \<and> d < len \<and> (d - 1) div 2 = c"
    have dc: "c < d" using parent_less[of d] d by simp
    have "k (xs ! d) \<le> k (xs ! c)" using edges[of d] d dc hc ph by simp
    then show "k (?xs' ! d) \<le> k (?xs' ! ((c - 1) div 2))"
      using assms(5) dc hc ll by simp
  qed
qed

lemma adjust_heap_loop_hole:
  fixes k :: "'a \<Rightarrow> 'b::linorder"
  assumes "hole_inv k xs p h len" "len \<le> length xs"
  shows "\<exists>ys h'. adjust_heap_loop (\<lambda>a b. k a < k b) xs h len = (ys, h')
           \<and> hole_inv k ys p h' len \<and> \<not> h' < (len - 1) div 2
           \<and> (\<forall>v. mset (ys[h' := v]) = mset (xs[h := v]))
           \<and> drop len ys = drop len xs \<and> length ys = length xs"
  using assms
proof (induction "len - h" arbitrary: xs h rule: less_induct)
  case less
  show ?case
  proof (cases "h < (len - 1) div 2")
    case False
    have "adjust_heap_loop (\<lambda>a b. k a < k b) xs h len = (xs, h)"
      using False by (subst adjust_heap_loop.simps) simp
    then show ?thesis using False less.prems by simp
  next
    case True
    let ?c = "larger_child (\<lambda>a b. k a < k b) xs h"
    let ?xs' = "xs[h := xs ! ?c]"
    have c12: "?c = 2 * h + 1 \<or> ?c = 2 * h + 2" by (simp add: larger_child_def)
    have cl: "?c < len" "0 < ?c" "(?c - 1) div 2 = h" "h < ?c" using c12 True by auto
    have big: "\<forall>d. 0 < d \<and> d < len \<and> (d - 1) div 2 = h \<longrightarrow> k (xs ! d) \<le> k (xs ! ?c)"
    proof (intro allI impI)
      fix d assume d: "0 < d \<and> d < len \<and> (d - 1) div 2 = h"
      then have "d = 2 * h + 1 \<or> d = 2 * h + 2" by auto
      then show "k (xs ! d) \<le> k (xs ! ?c)"
        by (auto simp: larger_child_def)
    qed
    have inv': "hole_inv k ?xs' p ?c len"
      using less.prems cl big by (intro hole_inv_step) auto
    have len': "len \<le> length ?xs'" using less.prems(2) by simp
    have "len - ?c < len - h" using cl by simp
    from less.hyps[OF this inv' len']
    obtain ys h' where r: "adjust_heap_loop (\<lambda>a b. k a < k b) ?xs' ?c len = (ys, h')"
      "hole_inv k ys p h' len" "\<not> h' < (len - 1) div 2"
      "\<forall>v. mset (ys[h' := v]) = mset (?xs'[?c := v])"
      "drop len ys = drop len ?xs'" "length ys = length ?xs'"
      by blast
    have ll: "h < length xs" "?c < length xs" using cl less.prems(2) by auto
    have "h \<noteq> ?c" using cl by simp
    then have m: "mset (?xs'[?c := v]) = mset (xs[h := v])" for v
      using ll by (rule mset_move_hole)
    have "adjust_heap_loop (\<lambda>a b. k a < k b) xs h len = (ys, h')"
      using True r(1) by (subst adjust_heap_loop.simps) simp
    then show ?thesis using r(2,3,4,5,6) m cl by simp
  qed
qed

lemma adjust_heap_heap:
  fixes k :: "'a \<Rightarrow> 'b::linorder"
  assumes "heap_from k xs (Suc p) len" "p < len" "len \<le> length xs"
  shows "heap_from k (adjust_heap (\<lambda>a b. k a < k b) xs p len v) p len
         \<and> mset (adjust_heap (\<lambda>a b. k a < k b) xs p len v) = mset (xs[p := v])
         \<and> drop len (adjust_heap (\<lambda>a b. k a < k b) xs p len v) = drop len xs"
proof -
  have "hole_inv k xs p p len"
    unfolding hole_inv_def using assms(1,2)
    by (auto simp: heap_from_def heap_below_refl Suc_le_eq le_neq_implies_less)
  from adjust_heap_loop_hole[OF this assms(3)]
  obtain ys h where r: "adjust_heap_loop (\<lambda>a b. k a < k b) xs p len = (ys, h)"
      "hole_inv k ys p h len" "\<not> h < (len - 1) div 2"
      "\<forall>v. mset (ys[h := v]) = mset (xs[p := v])"
      "drop len ys = drop len xs" "length ys = length xs"
    by blast
  have hl: "h < len" using r(2) by (simp add: hole_inv_def)
  have leny: "len \<le> length ys" using r(6) assms(3) by simp
  show ?thesis
  proof (cases "even len \<and> h = (len - 2) div 2")
    case True
    let ?c = "2 * (h + 1) - 1"
    let ?zs = "ys[h := ys ! ?c]"
    have l2: "2 \<le> len" using True assms(2) by presburger
    have c: "0 < ?c" "?c < len" "(?c - 1) div 2 = h" "Suc ?c = len" using True hl l2 by auto
    have only: "\<forall>d. 0 < d \<and> d < len \<and> (d - 1) div 2 = h \<longrightarrow> k (ys ! d) \<le> k (ys ! ?c)"
    proof (intro allI impI)
      fix d assume d: "0 < d \<and> d < len \<and> (d - 1) div 2 = h"
      then have "d = ?c" using c(4) by auto
      then show "k (ys ! d) \<le> k (ys ! ?c)" by simp
    qed
    have inv: "hole_inv k ?zs p ?c len"
      using r(2) leny c only by (intro hole_inv_step) auto
    have kids: "\<forall>d. 0 < d \<and> d < len \<and> (d - 1) div 2 = ?c \<longrightarrow> k (?zs ! d) \<le> k v"
      using c(4) by auto
    have lenz: "len \<le> length ?zs" using leny by simp
    from push_heap_heap[OF inv lenz kids]
    have ph: "heap_from k (push_heap (\<lambda>a b. k a < k b) ?zs ?c p v) p len"
      "mset (push_heap (\<lambda>a b. k a < k b) ?zs ?c p v) = mset (?zs[?c := v])"
      "drop len (push_heap (\<lambda>a b. k a < k b) ?zs ?c p v) = drop len ?zs"
      by auto
    have e: "adjust_heap (\<lambda>a b. k a < k b) xs p len v = push_heap (\<lambda>a b. k a < k b) ?zs ?c p v"
      using True r(1) by (simp add: adjust_heap_def)
    have "h \<noteq> ?c" "h < length ys" "?c < length ys" using c hl leny by auto
    then have "mset (?zs[?c := v]) = mset (ys[h := v])" by (rule mset_move_hole)
    then show ?thesis using ph e r(4,5) hl by simp
  next
    case False
    have kids: "\<forall>d. 0 < d \<and> d < len \<and> (d - 1) div 2 = h \<longrightarrow> k (ys ! d) \<le> k v"
    proof (intro allI impI)
      fix d assume d: "0 < d \<and> d < len \<and> (d - 1) div 2 = h"
      have False using d r(3) False by (cases "even len") (auto elim!: evenE oddE)
      then show "k (ys ! d) \<le> k v" ..
    qed
    from push_heap_heap[OF r(2) leny kids]
    have ph: "heap_from k (push_heap (\<lambda>a b. k a < k b) ys h p v) p len"
      "mset (push_heap (\<lambda>a b. k a < k b) ys h p v) = mset (ys[h := v])"
      "drop len (push_heap (\<lambda>a b. k a < k b) ys h p v) = drop len ys"
      by auto
    have e: "adjust_heap (\<lambda>a b. k a < k b) xs p len v = push_heap (\<lambda>a b. k a < k b) ys h p v"
      using False r(1) by (auto simp: adjust_heap_def)
    show ?thesis using ph e r(4,5) by simp
  qed
qed


lemma make_heap_loop_heap:
  fixes k :: "'a \<Rightarrow> 'b::linorder"
  assumes "heap_from k xs (Suc parent) len" "parent < len" "len \<le> length xs"
  shows "heap_from k (make_heap_loop (\<lambda>a b. k a < k b) xs parent len) 0 len
         \<and> mset (make_heap_loop (\<lambda>a b. k a < k b) xs parent len) = mset xs
         \<and> drop len (make_heap_loop (\<lambda>a b. k a < k b) xs parent len) = drop len xs"
  using assms
proof (induction parent arbitrary: xs)
  case 0
  from adjust_heap_heap[OF 0, of "xs ! 0"] show ?case by simp
next
  case (Suc parent)
  let ?ys = "adjust_heap (\<lambda>a b. k a < k b) xs (Suc parent) len (xs ! Suc parent)"
  from adjust_heap_heap[OF Suc.prems, of "xs ! Suc parent"]
  have a: "heap_from k ?ys (Suc parent) len" "mset ?ys = mset xs" "drop len ?ys = drop len xs"
    by simp_all
  have "length ?ys = length xs" using a(2) by (rule mset_eq_length)
  then have "len \<le> length ?ys" "parent < len" using Suc.prems by simp_all
  from Suc.IH[OF a(1) this(2) this(1)] a(2,3) show ?case by simp
qed

lemma make_heap_heap:
  fixes k :: "'a \<Rightarrow> 'b::linorder"
  assumes "len \<le> length xs"
  shows "heap_from k (make_heap (\<lambda>a b. k a < k b) xs len) 0 len
         \<and> mset (make_heap (\<lambda>a b. k a < k b) xs len) = mset xs
         \<and> drop len (make_heap (\<lambda>a b. k a < k b) xs len) = drop len xs"
proof (cases "len < 2")
  case True
  then have "heap_from k xs 0 len" by (auto simp: heap_from_def)
  then show ?thesis using True by (simp add: make_heap_def)
next
  case False
  have "heap_from k xs (Suc ((len - 2) div 2)) len"
    unfolding heap_from_def
  proof (intro allI impI)
    fix i assume "0 < i \<and> i < len \<and> Suc ((len - 2) div 2) \<le> (i - 1) div 2"
    then have False by presburger
    then show "k (xs ! i) \<le> k (xs ! ((i - 1) div 2))" ..
  qed
  moreover have "(len - 2) div 2 < len" using False by simp
  ultimately show ?thesis
    using make_heap_loop_heap[of k xs "(len - 2) div 2" len] assms False
    by (simp add: make_heap_def)
qed

lemma heap_root_max:
  fixes k :: "'a \<Rightarrow> 'b::linorder"
  assumes "heap_from k xs 0 len" "i < len"
  shows "k (xs ! i) \<le> k (xs ! 0)"
  using assms(2)
proof (induction i rule: less_induct)
  case (less i)
  show ?case
  proof (cases "i = 0")
    case True
    then show ?thesis by simp
  next
    case False
    then have p: "(i - 1) div 2 < i" by (simp add: parent_less)
    have "k (xs ! i) \<le> k (xs ! ((i - 1) div 2))"
      using assms(1) less.prems False by (simp add: heap_from_def)
    also have "\<dots> \<le> k (xs ! 0)" using less.IH[OF p] p less.prems by simp
    finally show ?thesis .
  qed
qed

lemma sort_heap_sorted:
  fixes k :: "'a \<Rightarrow> 'b::linorder"
  assumes "heap_from k xs 0 l" "l \<le> length xs" "sorted (map k (drop l xs))"
    "\<forall>x\<in>set (take l xs). \<forall>y\<in>set (drop l xs). k x \<le> k y"
  shows "sorted (map k (sort_heap (\<lambda>a b. k a < k b) xs l))
         \<and> mset (sort_heap (\<lambda>a b. k a < k b) xs l) = mset xs"
  using assms
proof (induction l arbitrary: xs rule: less_induct)
  case (less l)
  show ?case
  proof (cases "1 < l")
    case False
    have r: "sort_heap (\<lambda>a b. k a < k b) xs l = xs"
      using False by (subst sort_heap.simps) simp
    have "length (take l xs) \<le> 1" using False by simp
    then have "sorted (map k (take l xs))"
      by (cases "take l xs") (auto simp: le_Suc_eq)
    then have "sorted (map k (take l xs @ drop l xs))"
      using less.prems(3,4) by (simp add: sorted_append del: append_take_drop_id)
    then show ?thesis using r by simp
  next
    case True
    let ?l = "l - 1"
    let ?xs1 = "xs[?l := xs ! 0]"
    let ?ys = "pop_heap (\<lambda>a b. k a < k b) xs ?l ?l"
    have ll: "?l < l" "?l < length xs" "0 < ?l" "0 < length xs" using True less.prems(2) by auto
    have h1: "heap_from k ?xs1 (Suc 0) ?l"
      using less.prems(1) ll unfolding heap_from_def
      by (auto simp: nth_list_update less_imp_diff_less)
    have len1: "?l \<le> length ?xs1" using ll by simp
    from adjust_heap_heap[OF h1 ll(3) len1, of "xs ! ?l"]
    have a: "heap_from k ?ys 0 ?l" "mset ?ys = mset (?xs1[0 := xs ! ?l])"
       "drop ?l ?ys = drop ?l ?xs1"
      by (simp_all add: pop_heap_def)
    have m: "mset ?ys = mset xs"
      using a(2) mset_swap[of 0 xs ?l] ll by simp
    have leny: "length ?ys = length xs" using m by (rule mset_eq_length)
    have d: "drop ?l ?ys = xs ! 0 # drop l xs"
      using a(3) ll True by (simp add: drop_update_swap Cons_nth_drop_Suc[symmetric] del: drop_Suc_Cons)
    have x0: "xs ! 0 \<in> set (take l xs)" using True ll
      by (metis in_set_conv_nth length_take min.absorb2 less_imp_le nth_take less_trans less.prems(2)
            zero_less_one)
    have mt: "add_mset (xs ! 0) (mset (take ?l ?ys)) = mset (take l xs)"
    proof -
      have "mset (take ?l ?ys) + mset (drop ?l ?ys) = mset (take l xs) + mset (drop l xs)"
        using m by (metis append_take_drop_id mset_append)
      then have "mset (take ?l ?ys) + mset (xs ! 0 # drop l xs) = mset (take l xs) + mset (drop l xs)"
        by (simp only: d)
      then show ?thesis by simp
    qed
    have sub: "set (take ?l ?ys) \<subseteq> set (take l xs)"
    proof
      fix x assume "x \<in> set (take ?l ?ys)"
      then have "x \<in># add_mset (xs ! 0) (mset (take ?l ?ys))" by simp
      then show "x \<in> set (take l xs)" using mt by (metis set_mset_mset)
    qed
    have top: "\<forall>x\<in>set (take l xs). k x \<le> k (xs ! 0)"
    proof
      fix x assume "x \<in> set (take l xs)"
      then obtain i where "i < l" "x = xs ! i" using less.prems(2)
        by (auto simp: in_set_conv_nth)
      then show "k x \<le> k (xs ! 0)" using heap_root_max[OF less.prems(1)] by simp
    qed
    have s: "sorted (map k (drop ?l ?ys))"
      unfolding d using less.prems(3,4) x0 by simp
    have cross: "\<forall>x\<in>set (take ?l ?ys). \<forall>y\<in>set (drop ?l ?ys). k x \<le> k y"
      unfolding d using sub top less.prems(4) by auto
    have "?l \<le> length ?ys" using leny ll by simp
    from less.IH[OF ll(1) a(1) this s cross] m
    have "sorted (map k (sort_heap (\<lambda>a b. k a < k b) ?ys ?l))
         \<and> mset (sort_heap (\<lambda>a b. k a < k b) ?ys ?l) = mset xs"
      by simp
    moreover have "sort_heap (\<lambda>a b. k a < k b) xs l = sort_heap (\<lambda>a b. k a < k b) ?ys ?l"
      using True by (subst sort_heap.simps) simp
    ultimately show ?thesis by simp
  qed
qed

lemma partial_sort_sorted:
  fixes k :: "'a \<Rightarrow> 'b::linorder"
  shows "sorted (map k (partial_sort (\<lambda>a b. k a < k b) xs (length xs) (length xs)))
         \<and> mset (partial_sort (\<lambda>a b. k a < k b) xs (length xs) (length xs)) = mset xs"
proof -
  let ?ys = "make_heap (\<lambda>a b. k a < k b) xs (length xs)"
  have hs: "heap_select (\<lambda>a b. k a < k b) xs (length xs) (length xs) = ?ys"
    by (simp add: heap_select_def heap_select_loop.simps)
  from make_heap_heap[of "length xs" xs k]
  have a: "heap_from k ?ys 0 (length xs)" "mset ?ys = mset xs" by simp_all
  have len: "length ?ys = length xs" using a(2) by (rule mset_eq_length)
  from sort_heap_sorted[of k ?ys "length xs"] a len
  show ?thesis by (simp add: partial_sort_def hs)
qed

subsection \<open>The insertion sorts sort\<close>

lemma take_drop_mset_extend:
  assumes "mset (take a ys) = mset (take a xs)" "drop a ys = drop a xs" "a \<le> n"
  shows "mset (take n ys) = mset (take n xs) \<and> drop n ys = drop n xs"
proof -
  have l: "length (take a ys) = length (take a xs)" using assms(1) by (metis size_mset)
  have "length ys = length (take a ys) + length (drop a ys)" by simp
  have t: "take n zs = take a zs @ take (n - a) (drop a zs)" for zs :: "'a list"
    using assms(3) by (metis le_add_diff_inverse take_add)
  have d: "drop n zs = drop (n - a) (drop a zs)" for zs :: "'a list"
    using assms(3) by simp
  show ?thesis using assms(1,2) by (simp add: t[of ys] t[of xs] d[of ys] d[of xs])
qed

lemmas take_mset_extend = take_drop_mset_extend[THEN conjunct1]
lemmas drop_extend = take_drop_mset_extend[THEN conjunct2]

lemma unguarded_linear_insert_loop_sorted:
  fixes k :: "'a \<Rightarrow> 'b::linorder"
  assumes "j < length xs" "sorted (map k (take j xs))" "\<exists>x\<in>set (take j xs). k x \<le> k v"
  shows "\<exists>ys. unguarded_linear_insert_loop (\<lambda>a b. k a < k b) xs v j = Some ys
           \<and> length ys = length xs
           \<and> mset (take (Suc j) ys) = add_mset v (mset (take j xs))
           \<and> sorted (map k (take (Suc j) ys))
           \<and> drop (Suc j) ys = drop (Suc j) xs"
  using assms
proof (induction j arbitrary: xs)
  case 0
  then show ?case by simp
next
  case (Suc j)
  have jl: "j < length xs" using Suc.prems(1) by simp
  have tk: "take (Suc j) xs = take j xs @ [xs ! j]" using jl by (simp add: take_Suc_conv_app_nth)
  have le_j: "\<forall>x\<in>set (take j xs). k x \<le> k (xs ! j)"
    using Suc.prems(2) by (simp add: tk sorted_append)
  have sj: "sorted (map k (take j xs))" using Suc.prems(2) by (simp add: tk sorted_append)
  show ?case
  proof (cases "k v < k (xs ! j)")
    case True
    let ?xs' = "xs[Suc j := xs ! j]"
    have "\<exists>x\<in>set (take j xs). k x \<le> k v"
      using Suc.prems(3) True by (auto simp: tk)
    with Suc.IH[of ?xs'] jl sj
    obtain ys where ys: "unguarded_linear_insert_loop (\<lambda>a b. k a < k b) ?xs' v j = Some ys"
      "length ys = length xs" "mset (take (Suc j) ys) = add_mset v (mset (take j xs))"
      "sorted (map k (take (Suc j) ys))" "drop (Suc j) ys = drop (Suc j) ?xs'"
      by auto
    have d: "drop (Suc j) ?xs' = xs ! j # drop (Suc (Suc j)) xs"
      using Suc.prems(1) by (simp add: drop_update_swap Cons_nth_drop_Suc[symmetric] del: drop_Suc_Cons)
    have yj: "Suc j < length ys" using ys(2) Suc.prems(1) by simp
    have ysj: "ys ! Suc j = xs ! j" using ys(5) d yj
      by (metis Cons_nth_drop_Suc list.inject)
    have tk2: "take (Suc (Suc j)) ys = take (Suc j) ys @ [xs ! j]"
      using yj ysj by (simp add: take_Suc_conv_app_nth)
    have d2: "drop (Suc (Suc j)) ys = drop (Suc (Suc j)) xs"
      using ys(5) d by (metis drop_Suc list.sel(3) tl_drop)
    have "\<forall>x\<in>set (take (Suc j) ys). k x \<le> k (xs ! j)"
    proof
      fix x assume "x \<in> set (take (Suc j) ys)"
      then have "x \<in># add_mset v (mset (take j xs))" using ys(3) by (metis set_mset_mset)
      then show "k x \<le> k (xs ! j)" using True le_j by auto
    qed
    then have s2: "sorted (map k (take (Suc (Suc j)) ys))"
      using ys(4) by (simp add: tk2 sorted_append)
    have m2: "mset (take (Suc (Suc j)) ys) = add_mset v (mset (take (Suc j) xs))"
      by (simp add: tk2 ys(3) tk)
    have "unguarded_linear_insert_loop (\<lambda>a b. k a < k b) xs v (Suc j) = Some ys"
      using True ys(1) by (subst unguarded_linear_insert_loop.simps) simp
    then show ?thesis using ys(2) m2 s2 d2 by blast
  next
    case False
    let ?ys = "xs[Suc j := v]"
    have r: "unguarded_linear_insert_loop (\<lambda>a b. k a < k b) xs v (Suc j) = Some ?ys"
      using False by (subst unguarded_linear_insert_loop.simps) simp
    have tk2: "take (Suc (Suc j)) ?ys = take (Suc j) xs @ [v]"
      using Suc.prems(1) by (simp add: take_Suc_conv_app_nth[of "Suc j"])
    have "\<forall>x\<in>set (take (Suc j) xs). k x \<le> k v"
      using le_j False by (auto simp: tk)
    then have "sorted (map k (take (Suc (Suc j)) ?ys))"
      using Suc.prems(2) by (simp add: tk2 sorted_append)
    moreover have "mset (take (Suc (Suc j)) ?ys) = add_mset v (mset (take (Suc j) xs))"
      by (simp add: tk2)
    moreover have "drop (Suc (Suc j)) ?ys = drop (Suc (Suc j)) xs" by simp
    ultimately show ?thesis using r by simp
  qed
qed


lemma unguarded_linear_insert_sorted:
  fixes k :: "'a \<Rightarrow> 'b::linorder"
  assumes "j < length xs" "sorted (map k (take j xs))" "\<exists>x\<in>set (take j xs). k x \<le> k (xs ! j)"
  shows "\<exists>ys. unguarded_linear_insert (\<lambda>a b. k a < k b) xs j = Some ys
           \<and> length ys = length xs
           \<and> mset (take (Suc j) ys) = mset (take (Suc j) xs)
           \<and> sorted (map k (take (Suc j) ys))
           \<and> drop (Suc j) ys = drop (Suc j) xs"
  using unguarded_linear_insert_loop_sorted[OF assms] assms(1)
  by (auto simp: unguarded_linear_insert_def take_Suc_conv_app_nth)

lemma insertion_sort_loop_sorted:
  fixes k :: "'a \<Rightarrow> 'b::linorder"
  assumes "0 < i" "i \<le> n" "n \<le> length xs" "sorted (map k (take i xs))"
  shows "\<exists>ys. insertion_sort_loop (\<lambda>a b. k a < k b) xs i n = Some ys
           \<and> length ys = length xs
           \<and> mset (take n ys) = mset (take n xs)
           \<and> sorted (map k (take n ys))
           \<and> drop n ys = drop n xs"
  using assms
proof (induction "n - i" arbitrary: i xs)
  case 0
  then have "i = n" by simp
  then show ?case using 0 by (subst insertion_sort_loop.simps) simp
next
  case (Suc d)
  have il: "i < n" "i < length xs" using Suc.hyps(2) Suc.prems by auto
  have tk: "take (Suc i) xs = take i xs @ [xs ! i]" using il by (simp add: take_Suc_conv_app_nth)
  have x0: "xs ! 0 \<in> set (take i xs)" using Suc.prems(1) il
    by (metis in_set_conv_nth length_take min.absorb2 less_imp_le nth_take)
  have le0: "\<forall>x\<in>set (take i xs). k (xs ! 0) \<le> k x"
  proof
    fix x assume "x \<in> set (take i xs)"
    then obtain m where m: "m < i" "x = xs ! m" using il
      by (auto simp: in_set_conv_nth)
    have "map k (take i xs) ! 0 \<le> map k (take i xs) ! m"
      using Suc.prems(4) m(1) il by (intro sorted_nth_mono) auto
    then show "k (xs ! 0) \<le> k x" using m il Suc.prems(1) by simp
  qed
  show ?case
  proof (cases "k (xs ! i) < k (xs ! 0)")
    case True
    let ?xs' = "xs ! i # take i xs @ drop (i + 1) xs"
    have len: "length ?xs' = length xs" using il by simp
    have tk': "take (Suc i) ?xs' = xs ! i # take i xs" using il by simp
    have "sorted (map k (xs ! i # take i xs))"
      using True le0 Suc.prems(4) by auto
    then have s': "sorted (map k (take (Suc i) ?xs'))" by (simp only: tk')
    have m': "mset (take (Suc i) ?xs') = mset (take (Suc i) xs)" by (simp only: tk' tk) simp
    have d': "drop (Suc i) ?xs' = drop (Suc i) xs" using il by simp
    have "d = n - Suc i" using Suc.hyps(2) by simp
    from Suc.hyps(1)[OF this, of ?xs'] s' il len Suc.prems(3)
    obtain ys where ys: "insertion_sort_loop (\<lambda>a b. k a < k b) ?xs' (Suc i) n = Some ys"
      "length ys = length xs" "mset (take n ys) = mset (take n ?xs')"
      "sorted (map k (take n ys))" "drop n ys = drop n ?xs'"
      by auto
    have le: "Suc i \<le> n" using il by simp
    have a: "mset (take n ys) = mset (take n xs)"
      using ys(3) take_mset_extend[OF m' d' le] by (rule trans)
    have b: "drop n ys = drop n xs"
      using ys(5) drop_extend[OF m' d' le] by (rule trans)
    have r: "insertion_sort_loop (\<lambda>a b. k a < k b) xs i n = Some ys"
      using True il ys(1) by (subst insertion_sort_loop.simps) simp
    show ?thesis by (rule exI[of _ ys]) (intro conjI r ys(2) a ys(4) b)
  next
    case False
    then have "k (xs ! 0) \<le> k (xs ! i)" by simp
    with x0 have "\<exists>x\<in>set (take i xs). k x \<le> k (xs ! i)" by blast
    from unguarded_linear_insert_sorted[OF il(2) Suc.prems(4) this]
    obtain zs where zs: "unguarded_linear_insert (\<lambda>a b. k a < k b) xs i = Some zs"
      "length zs = length xs" "mset (take (Suc i) zs) = mset (take (Suc i) xs)"
      "sorted (map k (take (Suc i) zs))" "drop (Suc i) zs = drop (Suc i) xs"
      by auto
    have "d = n - Suc i" using Suc.hyps(2) by simp
    from Suc.hyps(1)[OF this, of zs] zs il Suc.prems(3)
    obtain ys where ys: "insertion_sort_loop (\<lambda>a b. k a < k b) zs (Suc i) n = Some ys"
      "length ys = length xs" "mset (take n ys) = mset (take n zs)"
      "sorted (map k (take n ys))" "drop n ys = drop n zs"
      by auto
    have le: "Suc i \<le> n" using il by simp
    have a: "mset (take n ys) = mset (take n xs)"
      using ys(3) take_mset_extend[OF zs(3) zs(5) le] by (rule trans)
    have b: "drop n ys = drop n xs"
      using ys(5) drop_extend[OF zs(3) zs(5) le] by (rule trans)
    have r: "insertion_sort_loop (\<lambda>a b. k a < k b) xs i n = Some ys"
      using False il ys(1) zs(1) by (subst insertion_sort_loop.simps) simp
    show ?thesis by (rule exI[of _ ys]) (intro conjI r ys(2) a ys(4) b)
  qed
qed

lemma insertion_sort_sorted:
  fixes k :: "'a \<Rightarrow> 'b::linorder"
  assumes "n \<le> length xs"
  shows "\<exists>ys. insertion_sort (\<lambda>a b. k a < k b) xs n = Some ys
           \<and> length ys = length xs
           \<and> mset (take n ys) = mset (take n xs)
           \<and> sorted (map k (take n ys))
           \<and> drop n ys = drop n xs"
proof (cases "n = 0")
  case True
  then show ?thesis by (simp add: insertion_sort_def)
next
  case False
  then have "sorted (map k (take 1 xs))" using assms by (cases xs) auto
  from insertion_sort_loop_sorted[OF _ _ assms this] False
  show ?thesis by (simp add: insertion_sort_def)
qed

lemma unguarded_insertion_sort_sorted:
  fixes k :: "'a \<Rightarrow> 'b::linorder"
  assumes "i \<le> n" "n \<le> length xs" "sorted (map k (take i xs))"
    "\<forall>j. i \<le> j \<and> j < n \<longrightarrow> (\<exists>x\<in>set (take j xs). k x \<le> k (xs ! j))"
  shows "\<exists>ys. unguarded_insertion_sort (\<lambda>a b. k a < k b) xs i n = Some ys
           \<and> length ys = length xs
           \<and> mset (take n ys) = mset (take n xs)
           \<and> sorted (map k (take n ys))
           \<and> drop n ys = drop n xs"
  using assms
proof (induction "n - i" arbitrary: i xs)
  case 0
  then have "i = n" by simp
  then show ?case using 0 by (subst unguarded_insertion_sort.simps) simp
next
  case (Suc d)
  have il: "i < n" "i < length xs" using Suc.hyps(2) Suc.prems by auto
  have "\<exists>x\<in>set (take i xs). k x \<le> k (xs ! i)" using Suc.prems(4) il by simp
  from unguarded_linear_insert_sorted[OF il(2) Suc.prems(3) this]
  obtain zs where zs: "unguarded_linear_insert (\<lambda>a b. k a < k b) xs i = Some zs"
    "length zs = length xs" "mset (take (Suc i) zs) = mset (take (Suc i) xs)"
    "sorted (map k (take (Suc i) zs))" "drop (Suc i) zs = drop (Suc i) xs"
    by auto
  have guard: "\<forall>j. Suc i \<le> j \<and> j < n \<longrightarrow> (\<exists>x\<in>set (take j zs). k x \<le> k (zs ! j))"
  proof (intro allI impI)
    fix j assume j: "Suc i \<le> j \<and> j < n"
    have le: "Suc i \<le> j" using j by simp
    have "mset (take j zs) = mset (take j xs)" by (rule take_mset_extend[OF zs(3) zs(5) le])
    then have "set (take j zs) = set (take j xs)" by (rule mset_eq_setD)
    moreover have "drop j zs = drop j xs" by (rule drop_extend[OF zs(3) zs(5) le])
    then have "zs ! j = xs ! j"
      using j Suc.prems(2) zs(2) by (metis Cons_nth_drop_Suc list.inject less_le_trans)
    moreover have "\<exists>x\<in>set (take j xs). k x \<le> k (xs ! j)" using Suc.prems(4) j by simp
    ultimately show "\<exists>x\<in>set (take j zs). k x \<le> k (zs ! j)" by simp
  qed
  have "d = n - Suc i" using Suc.hyps(2) by simp
  from Suc.hyps(1)[OF this, of zs] zs il Suc.prems(2) guard
  obtain ys where ys: "unguarded_insertion_sort (\<lambda>a b. k a < k b) zs (Suc i) n = Some ys"
    "length ys = length xs" "mset (take n ys) = mset (take n zs)"
    "sorted (map k (take n ys))" "drop n ys = drop n zs"
    by auto
  have le: "Suc i \<le> n" using il by simp
  have a: "mset (take n ys) = mset (take n xs)"
    using ys(3) take_mset_extend[OF zs(3) zs(5) le] by (rule trans)
  have b: "drop n ys = drop n xs"
    using ys(5) drop_extend[OF zs(3) zs(5) le] by (rule trans)
  have r: "unguarded_insertion_sort (\<lambda>a b. k a < k b) xs i n = Some ys"
    using il ys(1) zs(1) by (subst unguarded_insertion_sort.simps) simp
  show ?case by (rule exI[of _ ys]) (intro conjI r ys(2) a ys(4) b)
qed

text \<open>
  The final insertion sort inserts the elements from position 16 on without a test for the
  beginning of the range. That is safe when each of them has an element before it that is
  not greater.
\<close>

definition guarded_after :: "('a \<Rightarrow> 'b::linorder) \<Rightarrow> 'a list \<Rightarrow> bool" where
  "guarded_after k xs \<longleftrightarrow>
     (\<forall>j. 16 \<le> j \<and> j < length xs \<longrightarrow> (\<exists>i<j. k (xs ! i) \<le> k (xs ! j)))"

lemma final_insertion_sort_sorted:
  fixes k :: "'a \<Rightarrow> 'b::linorder"
  assumes "guarded_after k xs"
  shows "\<exists>ys. final_insertion_sort (\<lambda>a b. k a < k b) xs = Some ys
           \<and> mset ys = mset xs \<and> sorted (map k ys)"
proof (cases "length xs > 16")
  case False
  from insertion_sort_sorted[of "length xs" xs k] False
  show ?thesis by (auto simp: final_insertion_sort_def)
next
  case True
  from insertion_sort_sorted[of 16 xs k] True
  obtain zs where zs: "insertion_sort (\<lambda>a b. k a < k b) xs 16 = Some zs"
    "length zs = length xs" "mset (take 16 zs) = mset (take 16 xs)"
    "sorted (map k (take 16 zs))" "drop 16 zs = drop 16 xs"
    by auto
  have guard: "\<forall>j. 16 \<le> j \<and> j < length zs \<longrightarrow> (\<exists>x\<in>set (take j zs). k x \<le> k (zs ! j))"
  proof (intro allI impI)
    fix j assume j: "16 \<le> j \<and> j < length zs"
    have le: "16 \<le> j" using j by simp
    have "mset (take j zs) = mset (take j xs)" by (rule take_mset_extend[OF zs(3) zs(5) le])
    then have s: "set (take j zs) = set (take j xs)" by (rule mset_eq_setD)
    have "drop j zs = drop j xs" by (rule drop_extend[OF zs(3) zs(5) le])
    then have n: "zs ! j = xs ! j"
      using j zs(2) by (metis Cons_nth_drop_Suc list.inject)
    obtain i where i: "i < j" "k (xs ! i) \<le> k (xs ! j)"
      using assms j zs(2) unfolding guarded_after_def by auto
    have "xs ! i \<in> set (take j xs)" using i(1) j zs(2)
      by (metis in_set_conv_nth length_take min.absorb2 less_imp_le nth_take)
    then show "\<exists>x\<in>set (take j zs). k x \<le> k (zs ! j)" using s n i(2) by auto
  qed
  from unguarded_insertion_sort_sorted[of 16 "length zs" zs k] zs True guard
  obtain ys where ys: "unguarded_insertion_sort (\<lambda>a b. k a < k b) zs 16 (length zs) = Some ys"
    "length ys = length zs" "mset (take (length zs) ys) = mset (take (length zs) zs)"
    "sorted (map k (take (length zs) ys))"
    by auto
  have t: "take (length xs) zs = zs" "take (length zs) ys = ys" "take (length zs) zs = zs"
    using zs(2) ys(2) by simp_all
  have le: "16 \<le> length xs" using True by simp
  have "mset (take (length xs) zs) = mset (take (length xs) xs)"
    by (rule take_mset_extend[OF zs(3) zs(5) le])
  then have e: "mset zs = mset xs" by (simp only: t take_all order_refl)
  have y: "mset ys = mset zs" "sorted (map k ys)" using ys(3,4) by (simp_all only: t)
  have "final_insertion_sort (\<lambda>a b. k a < k b) xs = Some ys"
    using True zs(1,2) ys(1) by (simp add: final_insertion_sort_def)
  with e y show ?thesis by simp
qed

subsection \<open>The partition and the introspective loop\<close>

text \<open>
  The scan upwards stops at an element that is not smaller than the pivot, and the median
  of three leaves such an element in the range; the scan downwards stops at the pivot
  itself at the latest. After the partition no element from the cut on is smaller than the
  pivot, which stays at the front.
\<close>

lemma unguarded_partition_up_stops:
  fixes k :: "'a \<Rightarrow> 'b::linorder"
  assumes "\<exists>i. f \<le> i \<and> i < length xs \<and> k (xs ! p) \<le> k (xs ! i)"
  shows "\<exists>f'. unguarded_partition_up (\<lambda>a b. k a < k b) xs f p = Some f'
            \<and> f \<le> f' \<and> f' < length xs \<and> k (xs ! p) \<le> k (xs ! f')"
  using assms
proof (induction "length xs - f" arbitrary: f)
  case 0
  then show ?case by auto
next
  case (Suc d)
  from Suc.prems obtain i where i: "f \<le> i" "i < length xs" "k (xs ! p) \<le> k (xs ! i)" by auto
  show ?case
  proof (cases "k (xs ! f) < k (xs ! p)")
    case True
    then have "f \<noteq> i" using i(3) by auto
    then have "\<exists>i. Suc f \<le> i \<and> i < length xs \<and> k (xs ! p) \<le> k (xs ! i)"
      using i by (intro exI[of _ i]) simp
    moreover have "d = length xs - Suc f" using Suc.hyps(2) by simp
    ultimately obtain f' where f': "unguarded_partition_up (\<lambda>a b. k a < k b) xs (Suc f) p = Some f'"
       "Suc f \<le> f'" "f' < length xs" "k (xs ! p) \<le> k (xs ! f')"
      using Suc.hyps(1)[of "Suc f"] by blast
    have "unguarded_partition_up (\<lambda>a b. k a < k b) xs f p = Some f'"
      using True i f'(1) by (subst unguarded_partition_up.simps) simp
    then show ?thesis using f' by simp
  next
    case False
    have "unguarded_partition_up (\<lambda>a b. k a < k b) xs f p = Some f"
      using False i by (subst unguarded_partition_up.simps) simp
    then show ?thesis using False i by simp
  qed
qed

lemma unguarded_partition_down_stops:
  fixes k :: "'a \<Rightarrow> 'b::linorder"
  assumes "\<exists>i\<le>l. k (xs ! i) \<le> k (xs ! p)"
  shows "\<exists>l'. unguarded_partition_down (\<lambda>a b. k a < k b) xs l p = Some l'
            \<and> l' \<le> l \<and> k (xs ! l') \<le> k (xs ! p)
            \<and> (\<forall>i. l' < i \<and> i \<le> l \<longrightarrow> k (xs ! p) < k (xs ! i))"
  using assms
proof (induction l)
  case 0
  then have "\<not> k (xs ! p) < k (xs ! 0)" by auto
  then have "unguarded_partition_down (\<lambda>a b. k a < k b) xs 0 p = Some 0"
    by (subst unguarded_partition_down.simps) simp
  then show ?case using 0 by simp
next
  case (Suc l)
  show ?case
  proof (cases "k (xs ! p) < k (xs ! Suc l)")
    case True
    from Suc.prems obtain i where i: "i \<le> Suc l" "k (xs ! i) \<le> k (xs ! p)" by auto
    then have "i \<noteq> Suc l" using True by auto
    then have "\<exists>i\<le>l. k (xs ! i) \<le> k (xs ! p)" using i by (intro exI[of _ i]) simp
    from Suc.IH[OF this]
    obtain l' where l': "unguarded_partition_down (\<lambda>a b. k a < k b) xs l p = Some l'"
      "l' \<le> l" "k (xs ! l') \<le> k (xs ! p)" "\<forall>i. l' < i \<and> i \<le> l \<longrightarrow> k (xs ! p) < k (xs ! i)"
      by blast
    have "unguarded_partition_down (\<lambda>a b. k a < k b) xs (Suc l) p = Some l'"
      using True l'(1) by (subst unguarded_partition_down.simps) simp
    moreover have "\<forall>i. l' < i \<and> i \<le> Suc l \<longrightarrow> k (xs ! p) < k (xs ! i)"
      using l'(4) True by (auto simp: le_Suc_eq)
    ultimately show ?thesis using l'(2,3) by simp
  next
    case False
    have "unguarded_partition_down (\<lambda>a b. k a < k b) xs (Suc l) p = Some (Suc l)"
      using False by (subst unguarded_partition_down.simps) simp
    then show ?thesis using False by auto
  qed
qed

lemma unguarded_partition_splits:
  fixes k :: "'a \<Rightarrow> 'b::linorder"
  assumes "0 < f" "f \<le> l" "l \<le> length xs"
    "\<forall>i. l \<le> i \<and> i < length xs \<longrightarrow> k (xs ! 0) \<le> k (xs ! i)"
    "\<exists>i. f \<le> i \<and> i < length xs \<and> k (xs ! 0) \<le> k (xs ! i)"
  shows "\<exists>ys c. unguarded_partition (\<lambda>a b. k a < k b) xs f l 0 = Some (ys, c)
            \<and> mset ys = mset xs \<and> 0 < c \<and> c \<le> length xs \<and> ys ! 0 = xs ! 0
            \<and> (\<forall>i. c \<le> i \<and> i < length xs \<longrightarrow> k (xs ! 0) \<le> k (ys ! i))"
  using assms
proof (induction l arbitrary: f xs rule: less_induct)
  case (less l)
  from unguarded_partition_up_stops[OF less.prems(5)]
  obtain f' where f': "unguarded_partition_up (\<lambda>a b. k a < k b) xs f 0 = Some f'"
    "f \<le> f'" "f' < length xs" "k (xs ! 0) \<le> k (xs ! f')"
    by blast
  have l0: "l \<noteq> 0" using less.prems(1,2) by simp
  have "\<exists>i\<le>l - 1. k (xs ! i) \<le> k (xs ! 0)" by (intro exI[of _ 0]) simp
  from unguarded_partition_down_stops[OF this]
  obtain l' where l': "unguarded_partition_down (\<lambda>a b. k a < k b) xs (l - 1) 0 = Some l'"
    "l' \<le> l - 1" "k (xs ! l') \<le> k (xs ! 0)"
    "\<forall>i. l' < i \<and> i \<le> l - 1 \<longrightarrow> k (xs ! 0) < k (xs ! i)"
    by blast
  have right: "\<forall>i. l' < i \<and> i < length xs \<longrightarrow> k (xs ! 0) \<le> k (xs ! i)"
  proof (intro allI impI)
    fix i assume i: "l' < i \<and> i < length xs"
    show "k (xs ! 0) \<le> k (xs ! i)"
    proof (cases "i \<le> l - 1")
      case True
      then show ?thesis using l'(4) i by (simp add: less_imp_le)
    next
      case False
      then show ?thesis using less.prems(4) i by simp
    qed
  qed
  show ?case
  proof (cases "f' < l'")
    case False
    have r: "unguarded_partition (\<lambda>a b. k a < k b) xs f l 0 = Some (xs, f')"
      using f'(1) l'(1) l0 False by (subst unguarded_partition.simps) simp
    have "\<forall>i. f' \<le> i \<and> i < length xs \<longrightarrow> k (xs ! 0) \<le> k (xs ! i)"
    proof (intro allI impI)
      fix i assume i: "f' \<le> i \<and> i < length xs"
      show "k (xs ! 0) \<le> k (xs ! i)"
      proof (cases "i = f'")
        case True
        then show ?thesis using f'(4) by simp
      next
        case False
        then have "l' < i" using i \<open>\<not> f' < l'\<close> by simp
        then show ?thesis using right i by simp
      qed
    qed
    then show ?thesis using r f' less.prems(1) by simp
  next
    case True
    let ?xs' = "iter_swap xs f' l'"
    have ll: "l' < l" "l' < length xs" using l'(2) l0 less.prems(3) by auto
    have len: "length ?xs' = length xs" by (simp add: iter_swap_def)
    have ms: "mset ?xs' = mset xs"
      unfolding iter_swap_def using f'(3) ll(2) by (simp add: mset_swap)
    have n0: "?xs' ! 0 = xs ! 0"
      using less.prems(1) f'(2) True by (simp add: iter_swap_def)
    have nl: "?xs' ! l' = xs ! f'"
      using ll(2) by (simp add: iter_swap_def)
    have no: "\<And>i. i \<noteq> f' \<Longrightarrow> i \<noteq> l' \<Longrightarrow> ?xs' ! i = xs ! i"
      by (simp add: iter_swap_def)
    have p4: "\<forall>i. l' \<le> i \<and> i < length ?xs' \<longrightarrow> k (?xs' ! 0) \<le> k (?xs' ! i)"
    proof (intro allI impI)
      fix i assume i: "l' \<le> i \<and> i < length ?xs'"
      show "k (?xs' ! 0) \<le> k (?xs' ! i)"
      proof (cases "i = l'")
        case True
        then show ?thesis using nl n0 f'(4) by simp
      next
        case False
        then have "?xs' ! i = xs ! i" using no[of i] i \<open>f' < l'\<close> by simp
        then show ?thesis using right i False n0 len by simp
      qed
    qed
    have p5: "\<exists>i. Suc f' \<le> i \<and> i < length ?xs' \<and> k (?xs' ! 0) \<le> k (?xs' ! i)"
      using True ll(2) nl n0 f'(4) len by (intro exI[of _ l']) simp
    from less.IH[OF ll(1), of "Suc f'" ?xs'] True ll(2) len p4 p5
    obtain ys c where yc: "unguarded_partition (\<lambda>a b. k a < k b) ?xs' (Suc f') l' 0 = Some (ys, c)"
      "mset ys = mset ?xs'" "0 < c" "c \<le> length ?xs'" "ys ! 0 = ?xs' ! 0"
      "\<forall>i. c \<le> i \<and> i < length ?xs' \<longrightarrow> k (?xs' ! 0) \<le> k (ys ! i)"
      by auto
    have r: "unguarded_partition (\<lambda>a b. k a < k b) xs f l 0 = Some (ys, c)"
      using f'(1) l'(1) l0 True yc(1) by (subst unguarded_partition.simps) simp
    show ?thesis
      using r yc(2,3,4,5,6) ms n0 len by simp
  qed
qed


lemma move_median_to_first_guard:
  fixes k :: "'a \<Rightarrow> 'b::linorder"
  assumes "0 < a" "a < b" "b < c" "c < length xs"
  shows "mset (move_median_to_first (\<lambda>a b. k a < k b) xs 0 a b c) = mset xs
         \<and> (\<exists>i. 0 < i \<and> i < length xs
               \<and> k (move_median_to_first (\<lambda>a b. k a < k b) xs 0 a b c ! 0)
                   \<le> k (move_median_to_first (\<lambda>a b. k a < k b) xs 0 a b c ! i))"
proof -
  have sw: "mset (iter_swap xs 0 j) = mset xs" if "j < length xs" for j
    unfolding iter_swap_def by (rule mset_swap) (use that assms in auto)
  have l0: "0 < length xs" using assms by (cases xs) auto
  have m: "mset (move_median_to_first (\<lambda>a b. k a < k b) xs 0 a b c) = mset xs"
    using assms by (simp add: move_median_to_first_def sw)
  have ga: "\<exists>i. 0 < i \<and> i < length xs \<and> k (iter_swap xs 0 a ! 0) \<le> k (iter_swap xs 0 a ! i)"
    if "k (xs ! a) \<le> k (xs ! b) \<or> k (xs ! a) \<le> k (xs ! c)"
    using that
  proof
    assume "k (xs ! a) \<le> k (xs ! b)"
    then show ?thesis using assms l0 by (intro exI[of _ b]) (simp add: iter_swap_def)
  next
    assume "k (xs ! a) \<le> k (xs ! c)"
    then show ?thesis using assms l0 by (intro exI[of _ c]) (simp add: iter_swap_def)
  qed
  have gb: "\<exists>i. 0 < i \<and> i < length xs \<and> k (iter_swap xs 0 b ! 0) \<le> k (iter_swap xs 0 b ! i)"
    if "k (xs ! b) \<le> k (xs ! a) \<or> k (xs ! b) \<le> k (xs ! c)"
    using that
  proof
    assume "k (xs ! b) \<le> k (xs ! a)"
    then show ?thesis using assms l0 by (intro exI[of _ a]) (simp add: iter_swap_def)
  next
    assume "k (xs ! b) \<le> k (xs ! c)"
    then show ?thesis using assms l0 by (intro exI[of _ c]) (simp add: iter_swap_def)
  qed
  have gc: "\<exists>i. 0 < i \<and> i < length xs \<and> k (iter_swap xs 0 c ! 0) \<le> k (iter_swap xs 0 c ! i)"
    if "k (xs ! c) \<le> k (xs ! a) \<or> k (xs ! c) \<le> k (xs ! b)"
    using that
  proof
    assume "k (xs ! c) \<le> k (xs ! a)"
    then show ?thesis using assms l0 by (intro exI[of _ a]) (simp add: iter_swap_def)
  next
    assume "k (xs ! c) \<le> k (xs ! b)"
    then show ?thesis using assms l0 by (intro exI[of _ b]) (simp add: iter_swap_def)
  qed
  have "\<exists>i. 0 < i \<and> i < length xs
               \<and> k (move_median_to_first (\<lambda>a b. k a < k b) xs 0 a b c ! 0)
                   \<le> k (move_median_to_first (\<lambda>a b. k a < k b) xs 0 a b c ! i)"
    unfolding move_median_to_first_def
    by (auto intro!: ga gb gc simp: not_less less_imp_le)
  with m show ?thesis by simp
qed

lemma unguarded_partition_pivot_splits:
  fixes k :: "'a \<Rightarrow> 'b::linorder"
  assumes "16 < length xs"
  shows "\<exists>ys c. unguarded_partition_pivot (\<lambda>a b. k a < k b) xs = Some (ys, c)
            \<and> mset ys = mset xs \<and> 0 < c \<and> c \<le> length xs
            \<and> (\<forall>i. c \<le> i \<and> i < length xs \<longrightarrow> k (ys ! 0) \<le> k (ys ! i))"
proof -
  let ?xs1 = "move_median_to_first (\<lambda>a b. k a < k b) xs 0 1 (length xs div 2) (length xs - 1)"
  have g: "mset ?xs1 = mset xs
         \<and> (\<exists>i. 0 < i \<and> i < length xs \<and> k (?xs1 ! 0) \<le> k (?xs1 ! i))"
    using assms by (intro move_median_to_first_guard) auto
  then have len: "length ?xs1 = length xs" by (metis size_mset)
  have p1: "0 < (1::nat)" by simp
  have p2: "1 \<le> length ?xs1" using assms len by simp
  have p4: "\<forall>i. length ?xs1 \<le> i \<and> i < length ?xs1 \<longrightarrow> k (?xs1 ! 0) \<le> k (?xs1 ! i)"
    by (meson leD)
  have p5: "\<exists>i. 1 \<le> i \<and> i < length ?xs1 \<and> k (?xs1 ! 0) \<le> k (?xs1 ! i)"
    using g len by (auto simp: Suc_le_eq)
  from unguarded_partition_splits[OF p1 p2 order_refl p4 p5]
  obtain ys c where yc: "unguarded_partition (\<lambda>a b. k a < k b) ?xs1 1 (length ?xs1) 0 = Some (ys, c)"
      "mset ys = mset ?xs1" "0 < c" "c \<le> length ?xs1" "ys ! 0 = ?xs1 ! 0"
      "\<forall>i. c \<le> i \<and> i < length ?xs1 \<longrightarrow> k (?xs1 ! 0) \<le> k (ys ! i)"
    by blast
  have r: "unguarded_partition_pivot (\<lambda>a b. k a < k b) xs = Some (ys, c)"
    using yc(1) unfolding unguarded_partition_pivot_def len by simp
  show ?thesis using r yc(2,3,4,5,6) g len by simp
qed

lemma introsort_loop_guarded:
  fixes k :: "'a \<Rightarrow> 'b::linorder"
  shows "\<exists>ys. introsort_loop (\<lambda>a b. k a < k b) xs d = Some ys
           \<and> mset ys = mset xs \<and> guarded_after k ys"
proof (induction d arbitrary: xs)
  case 0
  show ?case
  proof (cases "16 < length xs")
    case False
    then show ?thesis
      by (subst introsort_loop.simps) (auto simp: guarded_after_def)
  next
    case True
    let ?ys = "partial_sort (\<lambda>a b. k a < k b) xs (length xs) (length xs)"
    have r: "introsort_loop (\<lambda>a b. k a < k b) xs 0 = Some ?ys"
      using True by (subst introsort_loop.simps) simp
    have s: "sorted (map k ?ys)" "mset ?ys = mset xs"
      using partial_sort_sorted[of k xs] by simp_all
    have "guarded_after k ?ys"
      unfolding guarded_after_def
    proof (intro allI impI)
      fix j assume j: "16 \<le> j \<and> j < length ?ys"
      have jl: "0 < length ?ys" "j < length ?ys" "0 < j" using j by auto
      have "map k ?ys ! 0 \<le> map k ?ys ! j"
        using s(1) j by (intro sorted_nth_mono) auto
      then show "\<exists>i<j. k (?ys ! i) \<le> k (?ys ! j)"
        using jl by (intro exI[of _ 0]) simp
    qed
    then show ?thesis using r s(2) by simp
  qed
next
  case (Suc d)
  show ?case
  proof (cases "16 < length xs")
    case False
    then show ?thesis
      by (subst introsort_loop.simps) (auto simp: guarded_after_def)
  next
    case True
    from unguarded_partition_pivot_splits[OF True, of k]
    obtain ys c where p: "unguarded_partition_pivot (\<lambda>a b. k a < k b) xs = Some (ys, c)"
      "mset ys = mset xs" "0 < c" "c \<le> length xs"
      "\<forall>i. c \<le> i \<and> i < length xs \<longrightarrow> k (ys ! 0) \<le> k (ys ! i)"
      by blast
    from Suc.IH[of "drop c ys"]
    obtain right where rt: "introsort_loop (\<lambda>a b. k a < k b) (drop c ys) d = Some right"
      "mset right = mset (drop c ys)"
      by blast
    from Suc.IH[of "take c ys"]
    obtain left where lt: "introsort_loop (\<lambda>a b. k a < k b) (take c ys) d = Some left"
      "mset left = mset (take c ys)" "guarded_after k left"
      by blast
    have r: "introsort_loop (\<lambda>a b. k a < k b) xs (Suc d) = Some (left @ right)"
      using True p(1) rt(1) lt(1) by (subst introsort_loop.simps) simp
    have m: "mset (left @ right) = mset xs"
      using rt(2) lt(2) p(2) by (simp add: union_code)
    have leny: "length ys = length xs" using p(2) by (rule mset_eq_length)
    have lenl: "length left = c"
      using mset_eq_length[OF lt(2)] p(4) leny by simp
    have y0: "ys ! 0 \<in> set left"
    proof -
      have "ys ! 0 \<in> set (take c ys)" using p(3,4) leny
        by (metis in_set_conv_nth length_take min.absorb2 nth_take)
      then show ?thesis using lt(2) by (metis set_mset_mset)
    qed
    then obtain i0 where i0: "i0 < c" "left ! i0 = ys ! 0"
      using lenl by (auto simp: in_set_conv_nth)
    have g: "guarded_after k (left @ right)"
      unfolding guarded_after_def
    proof (intro allI impI)
      fix j assume j: "16 \<le> j \<and> j < length (left @ right)"
      show "\<exists>i<j. k ((left @ right) ! i) \<le> k ((left @ right) ! j)"
      proof (cases "j < c")
        case True
        then obtain i where "i < j" "k (left ! i) \<le> k (left ! j)"
          using lt(3) j lenl unfolding guarded_after_def by blast
        then show ?thesis using True lenl by (intro exI[of _ i]) (simp add: nth_append)
      next
        case False
        have "j - c < length right" using False j lenl by auto
        then have "right ! (j - c) \<in> set right" by (rule nth_mem)
        then have "(left @ right) ! j \<in> set right"
          using False lenl by (simp add: nth_append)
        then have "(left @ right) ! j \<in> set (drop c ys)"
          using rt(2) by (metis set_mset_mset)
        then obtain m where "m < length ys - c" "(left @ right) ! j = ys ! (c + m)"
          by (auto simp: in_set_conv_nth)
        then have "k (ys ! 0) \<le> k ((left @ right) ! j)" using p(5) leny by simp
        then show ?thesis using i0 False lenl by (intro exI[of _ i0]) (simp add: nth_append)
      qed
    qed
    show ?thesis using r m g by simp
  qed
qed

theorem std_sort_sorted:
  fixes k :: "'a \<Rightarrow> 'b::linorder"
  shows "\<exists>ys. std_sort (\<lambda>a b. k a < k b) xs = Some ys \<and> mset ys = mset xs \<and> sorted (map k ys)"
proof (cases "xs = []")
  case True
  then show ?thesis by (simp add: std_sort_def)
next
  case False
  from introsort_loop_guarded[of k xs "lg (length xs) * 2"]
  obtain zs where zs: "introsort_loop (\<lambda>a b. k a < k b) xs (lg (length xs) * 2) = Some zs"
    "mset zs = mset xs" "guarded_after k zs"
    by blast
  from final_insertion_sort_sorted[OF zs(3)]
  obtain ys where ys: "final_insertion_sort (\<lambda>a b. k a < k b) zs = Some ys"
    "mset ys = mset zs" "sorted (map k ys)"
    by blast
  have "std_sort (\<lambda>a b. k a < k b) xs = Some ys"
    using False zs(1) ys(1) by (simp add: std_sort_def)
  then show ?thesis using ys(2,3) zs(2) by simp
qed

subsection \<open>rankDocuments\<close>

record ScoredDocument =
  docId :: int
  score :: real

text \<open>
  \<^verbatim>\<open>rankDocuments\<close>. The \<^verbatim>\<open>std::map<int, double>\<close> of scores is the list of its entries
  in key order. The loop keeps the entries with \<^verbatim>\<open>entry.second >= minTfIdfScore\<close>, and
  the comparator of the sort is \<^verbatim>\<open>a.score > b.score\<close>.
\<close>

definition rankDocuments_kept :: "SearchEngine \<Rightarrow> (int \<times> real) list \<Rightarrow> ScoredDocument list" where
  "rankDocuments_kept e scores =
     map (\<lambda>entry. \<lparr>docId = fst entry, score = snd entry\<rparr>)
       (filter (\<lambda>entry. snd entry \<ge> minTfIdfScore (m_config e)) scores)"

definition rankDocuments ::
  "SearchEngine \<Rightarrow> (int \<times> real) list \<Rightarrow> ScoredDocument list option" where
  "rankDocuments e scores =
     std_sort (\<lambda>a b. score a > score b) (rankDocuments_kept e scores)"

text \<open>
  The order that claim C6 describes: descending score, and among equal scores the smaller
  DocId first.
\<close>

definition ranked_with_ties_by_docId :: "ScoredDocument list \<Rightarrow> bool" where
  "ranked_with_ties_by_docId results \<longleftrightarrow>
     sorted_wrt (\<lambda>a b. score a > score b \<or> (score a = score b \<and> docId a < docId b)) results"

definition seventeen_equal_scores :: "(int \<times> real) list" where
  "seventeen_equal_scores =
     map (\<lambda>d. (d, 1 / 2)) [1, 2, 3, 4, 5, 6, 7, 8, 9, 10, 11, 12, 13, 14, 15, 16, 17]"

text \<open>
  Claim C6 says that ties between equal scores are broken by the smaller DocId. The
  comparator looks at the score alone and \<^verbatim>\<open>std::sort\<close> is not stable. For the seventeen
  documents 1 to 17 with the score \<open>1/2\<close> each, the range is longer than the threshold of
  16 elements and is partitioned once: the median step swaps the elements at positions 0
  and 8, and the partition loop, which stops at every element equal to the pivot, swaps
  the positions 1 and 16, 2 and 15, and so on up to 8 and 9. The insertion sort that
  follows moves nothing. The documents are returned in the order 9, 17, 16, \<open>\<dots>\<close>, 10, 1, 8,
  7, \<open>\<dots>\<close>, 2, which is not the order by DocId.
\<close>

theorem rankDocuments_tie_order_not_fixed:
  "map_option (map docId) (rankDocuments scenario_engine seventeen_equal_scores)
     = Some [9, 17, 16, 15, 14, 13, 12, 11, 10, 1, 8, 7, 6, 5, 4, 3, 2]
   \<and> map_option (map score) (rankDocuments scenario_engine seventeen_equal_scores)
     = Some (replicate 17 (1 / 2))
   \<and> map_option ranked_with_ties_by_docId
        (rankDocuments scenario_engine seventeen_equal_scores) = Some False"
  by code_simp

text \<open>
  Claim C6, amended. For every score map, \<^verbatim>\<open>rankDocuments\<close> returns, and what it returns
  holds exactly the documents whose score is at least \<^verbatim>\<open>minTfIdfScore\<close> (0.05 in the
  default configuration), each once with its score, in descending order of score. The
  order among documents of equal score is the one in which the sort leaves them, and it
  need not be the order of the DocIds.
\<close>

theorem rankDocuments_sorted_by_score:
  "(\<exists>results. rankDocuments e scores = Some results
      \<and> mset results = mset (map (\<lambda>entry. \<lparr>docId = fst entry, score = snd entry\<rparr>)
                              (filter (\<lambda>entry. \<not> snd entry < minTfIdfScore (m_config e)) scores))
      \<and> sorted_wrt (\<lambda>a b. score a \<ge> score b) results)
   \<and> minTfIdfScore (m_config (new_SearchEngine dataDirectory indexDir)) = 0.05"
proof -
  let ?k = "\<lambda>a :: ScoredDocument. - score a"
  have c: "(\<lambda>a b :: ScoredDocument. score a > score b) = (\<lambda>a b. ?k a < ?k b)"
    by (intro ext) simp
  from std_sort_sorted[of ?k "rankDocuments_kept e scores"]
  obtain results where r: "std_sort (\<lambda>a b. ?k a < ?k b) (rankDocuments_kept e scores) = Some results"
    "mset results = mset (rankDocuments_kept e scores)" "sorted (map ?k results)"
    by blast
  have "rankDocuments e scores = Some results"
    unfolding rankDocuments_def c by (rule r(1))
  moreover have "mset results = mset (map (\<lambda>entry. \<lparr>docId = fst entry, score = snd entry\<rparr>)
                              (filter (\<lambda>entry. \<not> snd entry < minTfIdfScore (m_config e)) scores))"
    using r(2) by (simp add: rankDocuments_kept_def not_less)
  moreover have "sorted_wrt (\<lambda>a b. score a \<ge> score b) results"
    using r(3) by (simp add: sorted_map)
  moreover have "minTfIdfScore (m_config (new_SearchEngine dataDirectory indexDir)) = 0.05"
    by (simp add: new_SearchEngine_def)
  ultimately show ?thesis by blast
qed

theorem rankDocuments_sorted_by_score_witness:
  "rankDocuments scenario_engine [(1, 1 / 4), (2, 1 / 3), (3, 1 / 100), (4, 1 / 4)]
       = Some [\<lparr>docId = 2, score = 1 / 3\<rparr>, \<lparr>docId = 1, score = 1 / 4\<rparr>,
               \<lparr>docId = 4, score = 1 / 4\<rparr>]
   \<and> mset [\<lparr>docId = 2, score = 1 / 3\<rparr>, \<lparr>docId = 1, score = 1 / 4\<rparr>, \<lparr>docId = 4, score = 1 / 4\<rparr>]
       = mset (map (\<lambda>entry. \<lparr>docId = fst entry, score = snd entry\<rparr>)
            (filter (\<lambda>entry. \<not> snd entry < minTfIdfScore (m_config scenario_engine))
               [(1, 1 / 4), (2, 1 / 3), (3, 1 / 100), (4, 1 / 4)]))
   \<and> sorted_wrt (\<lambda>a b. score a \<ge> score b)
        [\<lparr>docId = 2, score = 1 / 3\<rparr>, \<lparr>docId = 1, score = 1 / 4\<rparr>, \<lparr>docId = 4, score = 1 / 4 :: real\<rparr>]"
proof -
  have g: "rankDocuments scenario_engine [(1, 1 / 4), (2, 1 / 3), (3, 1 / 100), (4, 1 / 4)]
       = Some [\<lparr>docId = 2, score = 1 / 3\<rparr>, \<lparr>docId = 1, score = 1 / 4\<rparr>,
               \<lparr>docId = 4, score = 1 / 4\<rparr>]"
    by code_simp
  from rankDocuments_sorted_by_score[of scenario_engine
      "[(1, 1 / 4), (2, 1 / 3), (3, 1 / 100), (4, 1 / 4)]"]
  show ?thesis unfolding g by simp
qed

section \<open>search\_engine.cpp: indexing and persistence\<close>

subsection \<open>Ordered maps\<close>

text \<open>
  A \<^verbatim>\<open>std::map\<close> is the list of its entries in ascending key order; strings are compared
  byte by byte as \<^verbatim>\<open>unsigned char\<close>. \<open>smap_update key f d\<close> is \<^verbatim>\<open>f(m[key])\<close>, where
  \<^verbatim>\<open>operator[]\<close> first inserts the default \<open>d\<close> for a missing key.
\<close>

fun bytes_less :: "bytes \<Rightarrow> bytes \<Rightarrow> bool" where
  "bytes_less [] [] = False"
| "bytes_less [] (y # ys) = True"
| "bytes_less (x # xs) [] = False"
| "bytes_less (x # xs) (y # ys) = (x < y \<or> (x = y \<and> bytes_less xs ys))"

fun smap_update :: "bytes \<Rightarrow> ('v \<Rightarrow> 'v) \<Rightarrow> 'v \<Rightarrow> (bytes \<times> 'v) list \<Rightarrow> (bytes \<times> 'v) list" where
  "smap_update key f d [] = [(key, f d)]"
| "smap_update key f d ((k, v) # m) =
     (if key = k then (k, f v) # m
      else if bytes_less key k then (key, f d) # (k, v) # m
      else (k, v) # smap_update key f d m)"

subsection \<open>Building the index\<close>

text \<open>
  \<^verbatim>\<open>std::filesystem::path::extension\<close> of a file name: from the last dot on, unless there
  is no dot, the dot is the first character, or the name is \<^verbatim>\<open>.\<close> or \<^verbatim>\<open>..\<close>.
\<close>

definition path_extension :: "bytes \<Rightarrow> bytes" where
  "path_extension name =
     (let after = rev (takeWhile (\<lambda>c. c \<noteq> 0x2E) (rev name))
      in if 0x2E \<notin> set name \<or> name = ascii ''.'' \<or> name = ascii ''..''
            \<or> Suc (length after) = length name
         then []
         else 0x2E # after)"

record DocumentStats =
  stats_docId :: cint
  filename :: bytes
  wordCount :: cint
  termFrequencies :: "(bytes \<times> cint) list"

text \<open>
  \<^verbatim>\<open>processDocument\<close>. When the file cannot be opened the statistics are returned with
  \<^verbatim>\<open>wordCount\<close> never assigned; \<open>uninit\<close> stands for that indeterminate value. A path
  that is a directory can be opened, but reading it fails and the stream buffer throws
  \<^verbatim>\<open>std::ios_base::failure\<close> out of the construction of \<^verbatim>\<open>content\<close>.
\<close>

definition processDocument ::
  "cint \<Rightarrow> filesystem \<Rightarrow> bytes \<Rightarrow> bytes \<Rightarrow> cint \<Rightarrow> error + DocumentStats" where
  "processDocument uninit fs directory name documentId =
     (case files fs (directory @ ascii ''/'' @ name) of
        None \<Rightarrow>
          (if directories fs (directory @ ascii ''/'' @ name) \<noteq> None then Inl RuntimeError
           else Inr \<lparr>stats_docId = documentId, filename = name, wordCount = uninit,
                     termFrequencies = []\<rparr>)
      | Some content \<Rightarrow>
          (let tokens = tokenize content
           in Inr \<lparr>stats_docId = documentId, filename = name,
                   wordCount = of_nat (length tokens),
                   termFrequencies =
                     fold (\<lambda>token m. smap_update token (\<lambda>n. n + 1) 0 m) tokens []\<rparr>))"

text \<open>
  The loop of \<^verbatim>\<open>indexDocuments\<close> over the directory entries, with the engine, the running
  \<^verbatim>\<open>docId\<close> and \<^verbatim>\<open>tempPostings\<close> as its state. The loop is inside the \<^verbatim>\<open>try\<close> block: an
  exception of \<^verbatim>\<open>processDocument\<close> ends it, and what is returned then is the exception and
  the engine as the entries before have left it.
\<close>

fun indexDocuments_scan ::
  "cint \<Rightarrow> filesystem \<Rightarrow> bytes list \<Rightarrow> SearchEngine \<Rightarrow> cint \<Rightarrow> (bytes \<times> posting list) list
     \<Rightarrow> SearchEngine \<times> (error + cint \<times> (bytes \<times> posting list) list)" where
  "indexDocuments_scan uninit fs [] e lastId tempPostings = (e, Inr (lastId, tempPostings))"
| "indexDocuments_scan uninit fs (name # entries) e lastId tempPostings =
     (if path_extension name \<noteq> ascii ''.txt''
      then indexDocuments_scan uninit fs entries e lastId tempPostings
      else (let documentId = lastId + 1
            in case processDocument uninit fs (dataDir (m_config e)) name documentId of
                 Inl err \<Rightarrow> (e, Inl err)
               | Inr stats \<Rightarrow>
                   (let e' = e\<lparr>m_docNames :=
                                  hm_insert hash_int (m_docNames e) documentId (filename stats),
                                m_docLengths :=
                                  hm_insert hash_int (m_docLengths e) documentId
                                    (wordCount stats)\<rparr>;
                        tempPostings' = fold (\<lambda>termFreq tp.
                                          smap_update (fst termFreq)
                                            (\<lambda>ps. ps @ [(documentId, snd termFreq)]) [] tp)
                                          (termFrequencies stats) tempPostings
                    in indexDocuments_scan uninit fs entries e' documentId tempPostings')))"

text \<open>
  The second loop: each term's postings are sorted with \<^verbatim>\<open>std::sort\<close> and \<^verbatim>\<open>operator<\<close> of
  \<^verbatim>\<open>std::pair<int, int>\<close>, compressed and inserted. An exception of
  \<^verbatim>\<open>compressPostingList\<close> leaves \<^verbatim>\<open>indexDocuments\<close>. The order of the pairs is total and
  no two different pairs are equivalent in it, so the sorted list is the same whatever the
  algorithm; \<open>sort_postings\<close> computes it by insertion, and \<open>std_sort_postings\<close> below shows
  that the sort of the library returns it.
\<close>

definition posting_le :: "posting \<Rightarrow> posting \<Rightarrow> bool" where
  "posting_le p q \<longleftrightarrow> fst p <s fst q \<or> (fst p = fst q \<and> snd p \<le>s snd q)"

fun posting_insort :: "posting \<Rightarrow> posting list \<Rightarrow> posting list" where
  "posting_insort p [] = [p]"
| "posting_insort p (q # qs) = (if posting_le p q then p # q # qs else q # posting_insort p qs)"

definition sort_postings :: "posting list \<Rightarrow> posting list" where
  "sort_postings ps = foldr posting_insort ps []"

text \<open>
  \<^verbatim>\<open>operator<\<close> of \<^verbatim>\<open>std::pair\<close>, and a key that orders the pairs as it does.
\<close>

definition pair_less :: "posting \<Rightarrow> posting \<Rightarrow> bool" where
  "pair_less x y \<longleftrightarrow> fst x <s fst y \<or> (\<not> fst y <s fst x \<and> snd x <s snd y)"

definition posting_key :: "posting \<Rightarrow> int" where
  "posting_key p = sint (fst p) * 2 ^ 32 + sint (snd p)"

lemma sint32_bounds: "- (2 ^ 31) \<le> sint (w :: cint) \<and> sint w < 2 ^ 31"
  using sint_ge[of w] sint_lt[of w] by simp

lemma sint_eq_word_eq: "sint a = sint c \<longleftrightarrow> a = (c :: cint)"
  using signed_word_eqI by auto

lemma posting_key_less: "posting_key x < posting_key y \<longleftrightarrow> pair_less x y"
proof -
  have "a * 2 ^ 32 + b < c * 2 ^ 32 + d \<longleftrightarrow> a < c \<or> (\<not> c < a \<and> b < d)"
    if "- (2 ^ 31) \<le> b" "b < 2 ^ 31" "- (2 ^ 31) \<le> d" "d < 2 ^ 31" for a b c d :: int
    using that by auto
  then show ?thesis
    using sint32_bounds[of "snd x"] sint32_bounds[of "snd y"]
    by (simp add: posting_key_def pair_less_def word_sless_alt)
qed

lemma posting_key_le: "posting_key x \<le> posting_key y \<longleftrightarrow> posting_le x y"
proof -
  have "a * 2 ^ 32 + b \<le> c * 2 ^ 32 + d \<longleftrightarrow> a < c \<or> (a = c \<and> b \<le> d)"
    if "- (2 ^ 31) \<le> b" "b < 2 ^ 31" "- (2 ^ 31) \<le> d" "d < 2 ^ 31" for a b c d :: int
    using that by auto
  then show ?thesis
    using sint32_bounds[of "snd x"] sint32_bounds[of "snd y"]
    by (simp add: posting_key_def posting_le_def word_sless_alt word_sle_eq sint_eq_word_eq)
qed

lemma posting_key_inj: "inj posting_key"
proof (rule injI)
  fix x y assume "posting_key x = posting_key y"
  then have "posting_le x y" "posting_le y x" by (simp_all flip: posting_key_le)
  then show "x = y"
    by (cases x; cases y) (auto simp: posting_le_def word_sless_alt word_sle_eq sint_eq_word_eq)
qed

lemma posting_insort_insort: "map posting_key (posting_insort p ps) = insort (posting_key p) (map posting_key ps)"
  by (induction ps) (auto simp: posting_key_le[symmetric])

lemma sort_postings_sort: "map posting_key (sort_postings ps) = sort (map posting_key ps)"
  unfolding sort_postings_def
  by (induction ps) (simp_all add: posting_insort_insort sort_key_def)

lemma std_sort_postings: "std_sort pair_less ps = Some (sort_postings ps)"
proof -
  have c: "pair_less = (\<lambda>a b. posting_key a < posting_key b)"
    by (intro ext) (simp add: posting_key_less)
  from std_sort_sorted[of posting_key ps]
  obtain ys where ys: "std_sort (\<lambda>a b. posting_key a < posting_key b) ps = Some ys"
    "mset ys = mset ps" "sorted (map posting_key ys)"
    by blast
  have "mset (map posting_key ys) = mset (map posting_key ps)" using ys(2) by simp
  then have "map posting_key ys = sort (map posting_key ps)"
    using ys(3) by (metis properties_for_sort)
  then have "map posting_key ys = map posting_key (sort_postings ps)"
    by (simp add: sort_postings_sort)
  then have "ys = sort_postings ps"
    using posting_key_inj by (simp add: inj_map_eq_map)
  then show ?thesis using ys(1) c by simp
qed

fun indexDocuments_compress ::
  "(bytes \<times> posting list) list \<Rightarrow> SearchEngine \<Rightarrow> error + SearchEngine" where
  "indexDocuments_compress [] e = Inr e"
| "indexDocuments_compress ((term, postings) # tempPostings) e =
     (case compressPostingList (sort_postings postings) of
        Inl err \<Rightarrow> Inl err
      | Inr compressed \<Rightarrow>
          indexDocuments_compress tempPostings
            (e\<lparr>m_invertedIndex := hm_insert hash_string (m_invertedIndex e) term compressed\<rparr>))"

text \<open>
  \<^verbatim>\<open>indexDocuments\<close>. Nothing is done when the data directory does not exist. The three
  maps are emptied before the \<^verbatim>\<open>try\<close> block. The \<^verbatim>\<open>catch\<close> block reports an exception of
  the scan and returns: the names and lengths recorded so far stay, no posting list is
  installed and \<^verbatim>\<open>m_totalDocsCount\<close> keeps its old value. That is also what happens when
  the data directory is a file, where \<^verbatim>\<open>fs::directory_iterator\<close> throws.
\<close>

definition indexDocuments :: "cint \<Rightarrow> SearchEngine \<Rightarrow> filesystem \<Rightarrow> error + SearchEngine" where
  "indexDocuments uninit e fs =
     (case directories fs (dataDir (m_config e)) of
        None \<Rightarrow>
          (if files fs (dataDir (m_config e)) = None then Inr e
           else Inr (e\<lparr>m_invertedIndex := [], m_docNames := [], m_docLengths := []\<rparr>))
      | Some entries \<Rightarrow>
          (case indexDocuments_scan uninit fs entries
                  (e\<lparr>m_invertedIndex := [], m_docNames := [], m_docLengths := []\<rparr>) 0 [] of
             (e', Inl err) \<Rightarrow> Inr e'
           | (e', Inr (lastId, tempPostings)) \<Rightarrow>
               indexDocuments_compress tempPostings (e'\<lparr>m_totalDocsCount := sint lastId\<rparr>)))"

subsection \<open>Saving\<close>

text \<open>
  A \<^verbatim>\<open>uint32_t\<close> is written and read as its four bytes in host order, taken as
  little-endian.
\<close>

definition u32_bytes :: "u32 \<Rightarrow> bytes" where
  "u32_bytes w = [ucast w, ucast (drop_bit 8 w), ucast (drop_bit 16 w), ucast (drop_bit 24 w)]"

definition bytes_u32 :: "bytes \<Rightarrow> u32" where
  "bytes_u32 bs =
     ucast (bs ! 0) OR push_bit 8 (ucast (bs ! 1)) OR push_bit 16 (ucast (bs ! 2))
       OR push_bit 24 (ucast (bs ! 3))"

definition saveIndex_record :: "bytes \<times> bytes \<Rightarrow> bytes" where
  "saveIndex_record entry =
     (let termLen = (of_nat (length (fst entry)) :: u32);
          dataSize = (of_nat (length (snd entry)) :: u32)
      in u32_bytes termLen @ take (unat termLen) (fst entry)
           @ u32_bytes dataSize @ take (unat dataSize) (snd entry))"

definition lengths_line :: "cint \<times> cint \<Rightarrow> bytes" where
  "lengths_line entry = to_string (fst entry) @ ascii '' '' @ to_string (snd entry) @ [0x0A]"

definition names_line :: "cint \<times> bytes \<Rightarrow> bytes" where
  "names_line entry = to_string (fst entry) @ ascii '' '' @ snd entry @ [0x0A]"

text \<open>
  \<^verbatim>\<open>saveIndex\<close> returns false when the index file cannot be opened for writing; the two
  metadata files are skipped with a warning when they cannot. The paths that cannot be
  opened for writing are a parameter.
\<close>

definition saveIndex :: "bytes set \<Rightarrow> SearchEngine \<Rightarrow> filesystem \<Rightarrow> bool \<times> filesystem" where
  "saveIndex unwritable e fs =
     (if invIndexPath (m_config e) \<in> unwritable then (False, fs)
      else (let fs1 = fs\<lparr>files := (files fs)(invIndexPath (m_config e) \<mapsto>
                          concat (map saveIndex_record (m_invertedIndex e)))\<rparr>;
                fs2 = (if docLengthsPath (m_config e) \<in> unwritable then fs1
                       else fs1\<lparr>files := (files fs1)(docLengthsPath (m_config e) \<mapsto>
                          concat (map lengths_line (m_docLengths e)))\<rparr>);
                fs3 = (if docNamesPath (m_config e) \<in> unwritable then fs2
                       else fs2\<lparr>files := (files fs2)(docNamesPath (m_config e) \<mapsto>
                          concat (map names_line (m_docNames e)))\<rparr>)
            in (True, fs3)))"

subsection \<open>Loading\<close>

text \<open>
  An input stream is the bytes not yet read and the flag that no read has failed.
  \<^verbatim>\<open>read\<close> into a buffer fills it when enough bytes remain; otherwise it stores the bytes
  that remain into the front of the buffer and the stream fails; on a failed stream it
  stores nothing.
\<close>

type_synonym istream = "bytes \<times> bool"

definition istream_read :: "bytes \<Rightarrow> istream \<Rightarrow> bytes \<times> istream" where
  "istream_read buffer s =
     (if \<not> snd s then (buffer, s)
      else if length buffer \<le> length (fst s)
        then (take (length buffer) (fst s), (drop (length buffer) (fst s), True))
        else (fst s @ drop (length (fst s)) buffer, ([], False)))"

text \<open>
  The loop of \<^verbatim>\<open>loadIndex\<close>. Only the read of \<^verbatim>\<open>termLen\<close> is checked. \<^verbatim>\<open>dataSize\<close> is
  declared without a value; \<open>uninit\<close> stands for the indeterminate value it holds when
  its read stores nothing.
\<close>

function loadIndex_loop :: "u32 \<Rightarrow> istream \<Rightarrow> (bytes, bytes) hashmap \<Rightarrow> (bytes, bytes) hashmap" where
  "loadIndex_loop uninit s idx =
     (if \<not> snd s \<or> fst s = [] then idx
      else if length (fst s) < 4 then idx
      else (let termLen = bytes_u32 (take 4 (fst s));
                s1 = (drop 4 (fst s), True);
                (term, s2) = istream_read (replicate (unat termLen) 0) s1;
                (sizeBytes, s3) = istream_read (u32_bytes uninit) s2;
                dataSize = bytes_u32 sizeBytes;
                (data, s4) = istream_read (replicate (unat dataSize) 0) s3
            in loadIndex_loop uninit s4 (hm_insert hash_string idx term data)))"
  by pat_completeness auto
termination
  apply (relation "measure (\<lambda>(uninit, s, idx). if snd s then Suc (length (fst s)) else 0)")
   apply simp
  apply (auto simp: istream_read_def split: if_splits)
  done

declare loadIndex_loop.simps [simp del]

subsection \<open>Reading the metadata files\<close>

text \<open>
  Formatted input. \<^verbatim>\<open>operator>>\<close> for an \<^verbatim>\<open>int\<close> skips white space, reads an optional sign
  and a non-empty run of decimal digits, and fails when there is no digit or the value
  does not fit an \<^verbatim>\<open>int\<close>; a stream is the text not yet read. Once an extraction has
  failed, or the text is used up, every later extraction fails, so a failed extraction is
  \<open>None\<close> and ends the reading loops.
\<close>

definition isspace :: "byte \<Rightarrow> bool" where
  "isspace c \<longleftrightarrow> c = 0x20 \<or> (0x09 \<le> c \<and> c \<le> 0x0D)"

definition isdigit :: "byte \<Rightarrow> bool" where
  "isdigit c \<longleftrightarrow> 0x30 \<le> c \<and> c \<le> 0x39"

definition digits_value :: "bytes \<Rightarrow> nat" where
  "digits_value ds = foldl (\<lambda>n c. 10 * n + unat (c - 0x30)) 0 ds"

definition read_int :: "bytes \<Rightarrow> (cint \<times> bytes) option" where
  "read_int s =
     (let s1 = dropWhile isspace s;
          negative = (s1 \<noteq> [] \<and> hd s1 = 0x2D);
          s2 = (if s1 \<noteq> [] \<and> (hd s1 = 0x2D \<or> hd s1 = 0x2B) then tl s1 else s1);
          ds = takeWhile isdigit s2;
          v = (if negative then - int (digits_value ds) else int (digits_value ds))
      in if ds = [] \<or> v < - (2 ^ 31) \<or> 2 ^ 31 \<le> v then None
         else Some (word_of_int v, dropWhile isdigit s2))"

lemma read_int_shorter: "read_int s = Some (v, s') \<Longrightarrow> length s' < length s"
proof -
  assume a: "read_int s = Some (v, s')"
  define s1 where "s1 = dropWhile isspace s"
  define s2 where "s2 = (if s1 \<noteq> [] \<and> (hd s1 = 0x2D \<or> hd s1 = 0x2B) then tl s1 else s1)"
  from a have ne: "takeWhile isdigit s2 \<noteq> []" and s': "s' = dropWhile isdigit s2"
    by (auto simp: read_int_def Let_def s1_def s2_def split: if_splits)
  have "length s2 \<le> length s1" by (simp add: s2_def)
  moreover have "length s1 \<le> length s" by (simp add: s1_def length_dropWhile_le)
  moreover have "length s' < length s2"
  proof -
    have "length s2 = length (takeWhile isdigit s2) + length (dropWhile isdigit s2)"
      by (metis length_append takeWhile_dropWhile_id)
    with ne s' show ?thesis by (simp add: length_greater_0_conv)
  qed
  ultimately show ?thesis by simp
qed

text \<open>\<^verbatim>\<open>while (lenFile >> id >> length) m_docLengths.insert(id, length);\<close>\<close>

function loadLengths_loop :: "bytes \<Rightarrow> (cint, cint) hashmap \<Rightarrow> (cint, cint) hashmap" where
  "loadLengths_loop s m =
     (case read_int s of
        None \<Rightarrow> m
      | Some (ident, s1) \<Rightarrow>
         (case read_int s1 of
            None \<Rightarrow> m
          | Some (len, s2) \<Rightarrow> loadLengths_loop s2 (hm_insert hash_int m ident len)))"
  by pat_completeness auto
termination
  by (relation "measure (\<lambda>(s, m). length s)") (auto dest!: read_int_shorter)

declare loadLengths_loop.simps [simp del]

text \<open>
  \<^verbatim>\<open>while (namesFile >> id >> std::ws && std::getline(namesFile, name))\<close>: the white space
  after the number is skipped, and the name is the rest of the line; nothing is read when
  only white space is left. An empty name is not inserted.
\<close>

function loadNames_loop :: "bytes \<Rightarrow> (cint, bytes) hashmap \<Rightarrow> (cint, bytes) hashmap" where
  "loadNames_loop s m =
     (case read_int s of
        None \<Rightarrow> m
      | Some (ident, s1) \<Rightarrow>
         (let s2 = dropWhile isspace s1
          in if s2 = [] then m
             else (let name = takeWhile (\<lambda>c. c \<noteq> 0x0A) s2;
                       s3 = drop 1 (dropWhile (\<lambda>c. c \<noteq> 0x0A) s2)
                   in loadNames_loop s3
                        (if name \<noteq> [] then hm_insert hash_int m ident name else m))))"
  by pat_completeness auto
termination
proof (relation "measure (\<lambda>(s, m). length s)")
  show "wf (measure (\<lambda>(s, m). length s))" by simp
next
  fix s :: bytes and m :: "(cint, bytes) hashmap" and x2 ident s1 s2 name s3
  assume a: "read_int s = Some x2" "(ident, s1) = x2" "s2 = dropWhile isspace s1"
    "s3 = drop 1 (dropWhile (\<lambda>c. c \<noteq> 0x0A) s2)"
  then have "length s1 < length s" using read_int_shorter[of s ident s1] by simp
  moreover have "length s3 \<le> length s2"
    using a(4) length_dropWhile_le[of "\<lambda>c. c \<noteq> 0x0A" s2] by simp
  moreover have "length s2 \<le> length s1" using a(3) by (simp add: length_dropWhile_le)
  ultimately show "((s3, if name \<noteq> [] then hm_insert hash_int m ident name else m), (s, m))
      \<in> measure (\<lambda>(s, m). length s)"
    by simp
qed

declare loadNames_loop.simps [simp del]

definition loadIndexMetadata :: "SearchEngine \<Rightarrow> filesystem \<Rightarrow> bool \<times> SearchEngine" where
  "loadIndexMetadata e fs =
     (case files fs (docLengthsPath (m_config e)) of
        None \<Rightarrow> (False, e)
      | Some lengthsText \<Rightarrow>
          (let e1 = e\<lparr>m_docLengths := loadLengths_loop lengthsText []\<rparr>
           in case files fs (docNamesPath (m_config e)) of
                None \<Rightarrow> (True, e1)
              | Some namesText \<Rightarrow> (True, e1\<lparr>m_docNames := loadNames_loop namesText []\<rparr>)))"

definition loadIndex :: "u32 \<Rightarrow> SearchEngine \<Rightarrow> filesystem \<Rightarrow> bool \<times> SearchEngine" where
  "loadIndex uninit e fs =
     (case files fs (invIndexPath (m_config e)) of
        None \<Rightarrow> (False, e)
      | Some content \<Rightarrow>
          (let e1 = e\<lparr>m_invertedIndex := loadIndex_loop uninit (content, True) []\<rparr>
           in case loadIndexMetadata e1 fs of
                (False, e2) \<Rightarrow> (False, e2)
              | (True, e2) \<Rightarrow> (True, e2\<lparr>m_totalDocsCount := int (hm_size (m_docLengths e2))\<rparr>)))"

section \<open>Properties of loading\<close>

subsection \<open>Reading back the records of the index file\<close>

lemma bytes_u32_u32_bytes: "bytes_u32 (u32_bytes w @ rest) = w"
proof -
  let ?v = "(ucast (ucast w :: byte) :: u32) OR push_bit 8 (ucast (ucast (drop_bit 8 w) :: byte))
          OR push_bit 16 (ucast (ucast (drop_bit 16 w) :: byte))
          OR push_bit 24 (ucast (ucast (drop_bit 24 w) :: byte))"
  have "?v = w"
  proof (rule bit_word_eqI)
    fix n assume "n < LENGTH(32)"
    then show "bit ?v n = bit w n"
      by (simp only: bit_simps, cases "n < 8"; cases "n < 16"; cases "n < 24") auto
  qed
  then show ?thesis by (simp add: bytes_u32_def u32_bytes_def)
qed

lemma length_u32_bytes [simp]: "length (u32_bytes w) = 4"
  by (simp add: u32_bytes_def)

lemma unat_of_nat_u32: "n < 2 ^ 32 \<Longrightarrow> unat (of_nat n :: u32) = n"
  by (simp add: unsigned_of_nat take_bit_nat_eq_self)

lemma saveIndex_record_fits:
  assumes "length t < 2 ^ 32" "length d < 2 ^ 32"
  shows "saveIndex_record (t, d)
           = u32_bytes (of_nat (length t)) @ t @ u32_bytes (of_nat (length d)) @ d"
  using assms by (simp add: saveIndex_record_def Let_def unat_of_nat_u32)

lemma loadIndex_loop_record:
  assumes "length t < 2 ^ 32" "length d < 2 ^ 32"
  shows "loadIndex_loop g (saveIndex_record (t, d) @ rest, True) idx
           = loadIndex_loop g (rest, True) (hm_insert hash_string idx t d)"
proof -
  let ?s = "u32_bytes (of_nat (length t)) @ t @ u32_bytes (of_nat (length d)) @ d @ rest"
  have r1: "istream_read (replicate (length t) 0)
              (t @ u32_bytes (of_nat (length d)) @ d @ rest, True)
      = (t, (u32_bytes (of_nat (length d)) @ d @ rest, True))"
    by (simp add: istream_read_def)
  have r2: "istream_read (u32_bytes g) (u32_bytes (of_nat (length d)) @ d @ rest, True)
      = (u32_bytes (of_nat (length d)), (d @ rest, True))"
    by (simp add: istream_read_def)
  have r3: "istream_read (replicate (length d) 0) (d @ rest, True) = (d, (rest, True))"
    by (simp add: istream_read_def)
  have b: "bytes_u32 (u32_bytes w) = w" for w
    using bytes_u32_u32_bytes[of w "[]"] by simp
  have t4: "take 4 ?s = u32_bytes (of_nat (length t))" by simp
  have d4: "drop 4 ?s = t @ u32_bytes (of_nat (length d)) @ d @ rest" by simp
  have ne: "?s \<noteq> []" "\<not> length ?s < 4" by (simp_all add: u32_bytes_def)
  show ?thesis
    unfolding saveIndex_record_fits[OF assms] append_assoc
    by (subst loadIndex_loop.simps)
       (simp only: fst_conv snd_conv ne t4 d4 b unat_of_nat_u32[OF assms(1)]
          unat_of_nat_u32[OF assms(2)] r1 r2 r3 Let_def prod.case simp_thms if_False)
qed

lemma loadIndex_loop_records:
  assumes "\<forall>r \<in> set rs. length (fst r) < 2 ^ 32 \<and> length (snd r) < 2 ^ 32"
    and "length tail < 4"
  shows "loadIndex_loop g (concat (map saveIndex_record rs) @ tail, True) idx
           = foldl (\<lambda>m r. hm_insert hash_string m (fst r) (snd r)) idx rs"
  using assms(1)
proof (induction rs arbitrary: idx)
  case Nil
  show ?case using assms(2) by (subst loadIndex_loop.simps) simp
next
  case (Cons r rs)
  obtain t d where r: "r = (t, d)" by (cases r)
  from Cons.prems have fit: "length t < 2 ^ 32" "length d < 2 ^ 32" by (simp_all add: r)
  show ?case
    using Cons.IH[of "hm_insert hash_string idx t d"] Cons.prems
    by (simp add: r loadIndex_loop_record[OF fit])
qed

lemma loadIndex_success_iff:
  "fst (loadIndex uninit e fs) \<longleftrightarrow>
     files fs (invIndexPath (m_config e)) \<noteq> None \<and> files fs (docLengthsPath (m_config e)) \<noteq> None"
  by (auto simp: loadIndex_def loadIndexMetadata_def Let_def split: option.splits prod.splits bool.splits)

lemma loadIndex_index:
  "files fs (invIndexPath (m_config e)) = Some content \<Longrightarrow>
   m_invertedIndex (snd (loadIndex uninit e fs)) = loadIndex_loop uninit (content, True) []"
  by (auto simp: loadIndex_def loadIndexMetadata_def Let_def split: option.splits prod.splits bool.splits)

subsection \<open>A truncated trailing record\<close>

text \<open>
  Two index files for the engine \<open>new_SearchEngine d i\<close>, both with a document-lengths file
  beside them. The first holds the record of \<^verbatim>\<open>cat\<close> and then two bytes, the start of a
  \<^verbatim>\<open>termLen\<close>; the second holds the record of \<^verbatim>\<open>cat\<close> with \<^verbatim>\<open>dataLen\<close> 4 but only two
  data bytes.
\<close>

definition truncated_termLen_files :: filesystem where
  "truncated_termLen_files =
     \<lparr>files = [ascii ''i/inverted_index.bin'' \<mapsto>
                  [3, 0, 0, 0, 0x63, 0x61, 0x74, 2, 0, 0, 0, 129, 129, 1, 0],
                ascii ''i/doc_lengths.txt'' \<mapsto> ascii ''1 1'' @ [0x0A]],
      directories = Map.empty\<rparr>"

definition truncated_data_files :: filesystem where
  "truncated_data_files =
     \<lparr>files = [ascii ''i/inverted_index.bin'' \<mapsto>
                  [3, 0, 0, 0, 0x63, 0x61, 0x74, 4, 0, 0, 0, 129, 129],
                ascii ''i/doc_lengths.txt'' \<mapsto> ascii ''1 1'' @ [0x0A]],
      directories = Map.empty\<rparr>"

lemma new_SearchEngine_paths:
  "invIndexPath (m_config (new_SearchEngine (ascii ''d'') (ascii ''i''))) = ascii ''i/inverted_index.bin''"
  "docLengthsPath (m_config (new_SearchEngine (ascii ''d'') (ascii ''i''))) = ascii ''i/doc_lengths.txt''"
  "docNamesPath (m_config (new_SearchEngine (ascii ''d'') (ascii ''i''))) = ascii ''i/doc_names.txt''"
  by (simp_all add: new_SearchEngine_def ascii_def)

lemma loadLengths_loop_one: "loadLengths_loop (ascii ''1 1'' @ [0x0A]) [] = [(1, 1)]"
  by (simp add: loadLengths_loop.simps read_int_def isspace_def isdigit_def digits_value_def
        hm_insert_def ascii_def)

text \<open>
  Claim C8 says that loading a stream that ends inside a record reports failure. In both
  cases \<^verbatim>\<open>loadIndex\<close> returns true: in the first with the complete record, in the second
  with the record's data padded with zero bytes to the announced length. In neither case
  is the variable \<^verbatim>\<open>dataSize\<close> read before it is assigned, so its indeterminate initial
  value, here 0, plays no part.
\<close>

theorem loadIndex_truncated_record_succeeds:
  "loadIndex 0 (new_SearchEngine (ascii ''d'') (ascii ''i'')) truncated_termLen_files
     = (True, (new_SearchEngine (ascii ''d'') (ascii ''i''))
                \<lparr>m_invertedIndex := [(ascii ''cat'', [129, 129])],
                 m_docLengths := [(1, 1)], m_totalDocsCount := 1\<rparr>)
   \<and> loadIndex 0 (new_SearchEngine (ascii ''d'') (ascii ''i'')) truncated_data_files
     = (True, (new_SearchEngine (ascii ''d'') (ascii ''i''))
                \<lparr>m_invertedIndex := [(ascii ''cat'', [129, 129, 0, 0])],
                 m_docLengths := [(1, 1)], m_totalDocsCount := 1\<rparr>)"
proof -
  let ?E = "new_SearchEngine (ascii ''d'') (ascii ''i'')"
  have f: "files truncated_termLen_files (ascii ''i/inverted_index.bin'')
             = Some [3, 0, 0, 0, 0x63, 0x61, 0x74, 2, 0, 0, 0, 129, 129, 1, 0]"
    "files truncated_termLen_files (ascii ''i/doc_lengths.txt'') = Some (ascii ''1 1'' @ [0x0A])"
    "files truncated_termLen_files (ascii ''i/doc_names.txt'') = None"
    "files truncated_data_files (ascii ''i/inverted_index.bin'')
             = Some [3, 0, 0, 0, 0x63, 0x61, 0x74, 4, 0, 0, 0, 129, 129]"
    "files truncated_data_files (ascii ''i/doc_lengths.txt'') = Some (ascii ''1 1'' @ [0x0A])"
    "files truncated_data_files (ascii ''i/doc_names.txt'') = None"
    by (simp_all add: truncated_termLen_files_def truncated_data_files_def ascii_def)
  have z: "replicate 2 (0::byte) = [0, 0]" by (simp add: numeral_2_eq_2)
  have l1: "loadIndex_loop 0
              ([3, 0, 0, 0, 0x63, 0x61, 0x74, 2, 0, 0, 0, 129, 129, 1, 0], True) []
            = [(ascii ''cat'', [129, 129])]"
    by (simp add: loadIndex_loop.simps istream_read_def bytes_u32_def u32_bytes_def
          hm_insert_def ascii_def)
  have l2: "loadIndex_loop 0
              ([3, 0, 0, 0, 0x63, 0x61, 0x74, 4, 0, 0, 0, 129, 129], True) []
            = [(ascii ''cat'', [129, 129, 0, 0])]"
    by (simp add: loadIndex_loop.simps istream_read_def bytes_u32_def u32_bytes_def
          hm_insert_def ascii_def z)
  have gen: "loadIndex 0 ?E fs =
      (True, ?E\<lparr>m_invertedIndex := loadIndex_loop 0 (content, True) [],
                m_docLengths := loadLengths_loop lengthsText [],
                m_totalDocsCount := int (hm_size (loadLengths_loop lengthsText []))\<rparr>)"
    if "files fs (ascii ''i/inverted_index.bin'') = Some content"
      "files fs (ascii ''i/doc_lengths.txt'') = Some lengthsText"
      "files fs (ascii ''i/doc_names.txt'') = None"
    for fs content lengthsText
    using that by (simp add: loadIndex_def loadIndexMetadata_def new_SearchEngine_paths)
  show ?thesis
    unfolding gen[OF f(1,2,3)] gen[OF f(4,5,6)] l1 l2 loadLengths_loop_one
    by (simp add: hm_size_def)
qed

text \<open>
  Claim C8, amended. \<^verbatim>\<open>loadIndex\<close> reports failure exactly when the inverted-index file or
  the document-lengths file cannot be opened. A stream that ends inside the \<^verbatim>\<open>termLen\<close>
  field of a trailing record is not an error: for records whose lengths fit their 32-bit
  fields, followed by fewer than four bytes, the loop loads the complete records in
  order, stops, and \<^verbatim>\<open>loadIndex\<close> returns success.
\<close>

theorem loadIndex_failure_only_on_open:
  "(fst (loadIndex uninit e fs) \<longleftrightarrow>
      files fs (invIndexPath (m_config e)) \<noteq> None
      \<and> files fs (docLengthsPath (m_config e)) \<noteq> None)
   \<and> ((\<forall>r \<in> set records. length (fst r) < 2 ^ 32 \<and> length (snd r) < 2 ^ 32)
       \<and> length tail < 4
       \<and> files fs (invIndexPath (m_config e))
            = Some (concat (map saveIndex_record records) @ tail)
       \<and> files fs (docLengthsPath (m_config e)) \<noteq> None
      \<longrightarrow> fst (loadIndex uninit e fs)
          \<and> m_invertedIndex (snd (loadIndex uninit e fs))
              = foldl (\<lambda>m r. hm_insert hash_string m (fst r) (snd r)) [] records)"
proof (intro conjI impI)
  show "fst (loadIndex uninit e fs) \<longleftrightarrow>
      files fs (invIndexPath (m_config e)) \<noteq> None
      \<and> files fs (docLengthsPath (m_config e)) \<noteq> None"
    by (rule loadIndex_success_iff)
next
  assume a: "(\<forall>r \<in> set records. length (fst r) < 2 ^ 32 \<and> length (snd r) < 2 ^ 32)
       \<and> length tail < 4
       \<and> files fs (invIndexPath (m_config e))
            = Some (concat (map saveIndex_record records) @ tail)
       \<and> files fs (docLengthsPath (m_config e)) \<noteq> None"
  then show "fst (loadIndex uninit e fs)" by (simp add: loadIndex_success_iff)
  from a show "m_invertedIndex (snd (loadIndex uninit e fs))
              = foldl (\<lambda>m r. hm_insert hash_string m (fst r) (snd r)) [] records"
    using loadIndex_index[of fs e "concat (map saveIndex_record records) @ tail" uninit]
      loadIndex_loop_records[of records tail uninit "[]"]
    by simp
qed

definition two_records_files :: filesystem where
  "two_records_files =
     \<lparr>files = [ascii ''i/inverted_index.bin'' \<mapsto>
                  concat (map saveIndex_record
                    [(ascii ''bird'', [131, 129]), (ascii ''cat'', [129, 129])]) @ [4, 0, 0],
                ascii ''i/doc_lengths.txt'' \<mapsto> ascii ''1 1'' @ [0x0A]],
      directories = Map.empty\<rparr>"

lemma hash_string_examples:
  "hash_string (ascii ''bird'') = 4057" "hash_string (ascii ''cat'') = 8262"
  "hash_string (ascii ''dog'') = 9644"
  by (simp_all add: hash_string_def ascii_def HASH_SIZE_def)

theorem loadIndex_failure_only_on_open_witness:
  "fst (loadIndex 0 (new_SearchEngine (ascii ''d'') (ascii ''i'')) two_records_files)
   \<and> m_invertedIndex (snd (loadIndex 0 (new_SearchEngine (ascii ''d'') (ascii ''i''))
                              two_records_files))
       = [(ascii ''bird'', [131, 129]), (ascii ''cat'', [129, 129])]"
proof -
  have f: "files two_records_files (ascii ''i/inverted_index.bin'')
             = Some (concat (map saveIndex_record
                    [(ascii ''bird'', [131, 129]), (ascii ''cat'', [129, 129])]) @ [4, 0, 0])"
    "files two_records_files (ascii ''i/doc_lengths.txt'') \<noteq> None"
    by (simp_all add: two_records_files_def ascii_def)
  have fit: "\<forall>r \<in> set [(ascii ''bird'', [131, 129 :: byte]), (ascii ''cat'', [129, 129])].
               length (fst r) < 2 ^ 32 \<and> length (snd r) < 2 ^ 32"
    by (simp add: ascii_def)
  have ins: "foldl (\<lambda>m r. hm_insert hash_string m (fst r) (snd r)) []
               [(ascii ''bird'', [131, 129]), (ascii ''cat'', [129, 129])]
             = [(ascii ''bird'', [131, 129 :: byte]), (ascii ''cat'', [129, 129])]"
    by (simp add: hm_insert_def hash_string_examples) (simp add: ascii_def)
  from loadIndex_failure_only_on_open[of 0 "new_SearchEngine (ascii ''d'') (ascii ''i'')"
      two_records_files "[(ascii ''bird'', [131, 129]), (ascii ''cat'', [129, 129])]" "[4, 0, 0]"]
    f fit
  show ?thesis by (simp only: new_SearchEngine_paths ins) simp
qed

section \<open>Building, saving and loading\<close>

subsection \<open>A file name that begins with a space\<close>

text \<open>
  A corpus of one document, the file \<^verbatim>\<open>" a.txt"\<close> (its name begins with a space) with the
  content \<^verbatim>\<open>cat\<close>; the state after the build; the files after saving; and the state of a
  fresh engine after loading them.
\<close>

definition spaced_name_files :: filesystem where
  "spaced_name_files =
     \<lparr>files = [ascii ''d/ a.txt'' \<mapsto> ascii ''cat''],
      directories = [ascii ''d'' \<mapsto> [ascii '' a.txt'']]\<rparr>"

definition spaced_name_built :: SearchEngine where
  "spaced_name_built =
     (new_SearchEngine (ascii ''d'') (ascii ''i''))
       \<lparr>m_invertedIndex := [(ascii ''cat'', [129, 129])],
        m_docNames := [(1, ascii '' a.txt'')], m_docLengths := [(1, 1)],
        m_totalDocsCount := 1\<rparr>"

definition spaced_name_saved :: filesystem where
  "spaced_name_saved =
     spaced_name_files\<lparr>files := (files spaced_name_files)
       (ascii ''i/inverted_index.bin'' \<mapsto>
          [3, 0, 0, 0, 0x63, 0x61, 0x74, 2, 0, 0, 0, 129, 129],
        ascii ''i/doc_lengths.txt'' \<mapsto> ascii ''1 1'' @ [0x0A],
        ascii ''i/doc_names.txt'' \<mapsto> ascii ''1  a.txt'' @ [0x0A])\<rparr>"

definition spaced_name_loaded :: SearchEngine where
  "spaced_name_loaded =
     (new_SearchEngine (ascii ''d'') (ascii ''i''))
       \<lparr>m_invertedIndex := [(ascii ''cat'', [129, 129])],
        m_docNames := [(1, ascii ''a.txt'')], m_docLengths := [(1, 1)],
        m_totalDocsCount := 1\<rparr>"

lemma spaced_name_build:
  "indexDocuments 0 (new_SearchEngine (ascii ''d'') (ascii ''i'')) spaced_name_files
     = Inr spaced_name_built"
proof -
  let ?E = "new_SearchEngine (ascii ''d'') (ascii ''i'')"
  have d: "dataDir (m_config ?E) = ascii ''d''" by (simp add: new_SearchEngine_def)
  have l: "directories spaced_name_files (ascii ''d'') = Some [ascii '' a.txt'']"
    by (simp add: spaced_name_files_def)
  have ext: "path_extension (ascii '' a.txt'') = ascii ''.txt''" by code_simp
  have pd: "processDocument 0 spaced_name_files (ascii ''d'') (ascii '' a.txt'') 1 =
      Inr \<lparr>stats_docId = 1, filename = ascii '' a.txt'', wordCount = 1,
       termFrequencies = [(ascii ''cat'', 1)]\<rparr>"
    by code_simp
  have cp: "compressPostingList (sort_postings [(1, 1)]) = Inr [129, 129]" by code_simp
  show ?thesis
    unfolding indexDocuments_def d l
    by (simp add: ext pd d cp hm_insert_def spaced_name_built_def)
qed

lemma spaced_name_save:
  "saveIndex {} spaced_name_built spaced_name_files = (True, spaced_name_saved)"
  unfolding saveIndex_def
  by (simp add: spaced_name_built_def new_SearchEngine_def spaced_name_saved_def
        saveIndex_record_def u32_bytes_def lengths_line_def names_line_def to_string_def
        nat_digits.simps ascii_def)

lemma spaced_name_load:
  "loadIndex 0 (new_SearchEngine (ascii ''d'') (ascii ''i'')) spaced_name_saved
     = (True, spaced_name_loaded)"
proof -
  have f: "files spaced_name_saved (ascii ''i/inverted_index.bin'')
             = Some [3, 0, 0, 0, 0x63, 0x61, 0x74, 2, 0, 0, 0, 129, 129]"
    "files spaced_name_saved (ascii ''i/doc_lengths.txt'') = Some (ascii ''1 1'' @ [0x0A])"
    "files spaced_name_saved (ascii ''i/doc_names.txt'') = Some (ascii ''1  a.txt'' @ [0x0A])"
    by (simp_all add: spaced_name_saved_def ascii_def)
  have l1: "loadIndex_loop 0 ([3, 0, 0, 0, 0x63, 0x61, 0x74, 2, 0, 0, 0, 129, 129], True) []
              = [(ascii ''cat'', [129, 129])]"
    by (simp add: loadIndex_loop.simps istream_read_def bytes_u32_def u32_bytes_def
          hm_insert_def ascii_def)
  have l3: "loadNames_loop (ascii ''1  a.txt'' @ [0x0A]) [] = [(1, ascii ''a.txt'')]"
    by (simp add: loadNames_loop.simps read_int_def isspace_def isdigit_def digits_value_def
          hm_insert_def ascii_def)
  show ?thesis
    by (simp add: loadIndex_def loadIndexMetadata_def new_SearchEngine_paths f l1
          loadLengths_loop_one l3 hm_size_def spaced_name_loaded_def)
qed

text \<open>
  Claim C3 says that every query gives the same results after saving and loading as
  after the build. The names file is written as \<^verbatim>\<open><docId> <filename>\<close>, and the reader
  skips all white space after the number: the name \<^verbatim>\<open>" a.txt"\<close> comes back as \<^verbatim>\<open>"a.txt"\<close>.
  The query \<^verbatim>\<open>+cat\<close> finds document 1 after the build; after loading, the content check
  looks for the file \<^verbatim>\<open>d/a.txt\<close>, which does not exist, and the result is empty.
\<close>

theorem roundtrip_loses_leading_space_of_name:
  "indexDocuments 0 (new_SearchEngine (ascii ''d'') (ascii ''i'')) spaced_name_files
     = Inr spaced_name_built
   \<and> executeBooleanQuery spaced_name_built spaced_name_files
        \<lparr>requiredTerms = [ascii ''cat''], excludedTerms = [], optionalTerms = []\<rparr> = Inr [1]
   \<and> saveIndex {} spaced_name_built spaced_name_files = (True, spaced_name_saved)
   \<and> loadIndex 0 (new_SearchEngine (ascii ''d'') (ascii ''i'')) spaced_name_saved
        = (True, spaced_name_loaded)
   \<and> executeBooleanQuery spaced_name_loaded spaced_name_saved
        \<lparr>requiredTerms = [ascii ''cat''], excludedTerms = [], optionalTerms = []\<rparr> = Inr []
   \<and> executeBooleanQuery spaced_name_built spaced_name_saved
        \<lparr>requiredTerms = [ascii ''cat''], excludedTerms = [], optionalTerms = []\<rparr> = Inr [1]"
proof -
  have q1: "executeBooleanQuery spaced_name_built spaced_name_files
        \<lparr>requiredTerms = [ascii ''cat''], excludedTerms = [], optionalTerms = []\<rparr> = Inr [1]"
    by code_simp
  have q2: "executeBooleanQuery spaced_name_loaded spaced_name_saved
        \<lparr>requiredTerms = [ascii ''cat''], excludedTerms = [], optionalTerms = []\<rparr> = Inr []"
    by code_simp
  have q3: "executeBooleanQuery spaced_name_built spaced_name_saved
        \<lparr>requiredTerms = [ascii ''cat''], excludedTerms = [], optionalTerms = []\<rparr> = Inr [1]"
    by code_simp
  from spaced_name_build q1 spaced_name_save spaced_name_load q2 q3 show ?thesis
    by (simp only: simp_thms)
qed


end
